theory Spec2Isabelle
  imports Main "HOL-Library.Word" "HOL-Library.Multiset"
begin

section \<open>Data model of the event dispatcher\<close>

text \<open>
  The embedding follows \<^verbatim>\<open>src/main.cpp\<close>. The class template
  \<^verbatim>\<open>EventDispatcher<EventEnum, LockType>\<close> is polymorphic in the event enumeration, which is
  the type variable \<open>'e\<close> below; the enumeration the drivers use is \<open>EventType\<close>.
\<close>

datatype EventType = EventA | EventB

text \<open>
  \<^verbatim>\<open>using HandlerId = size_t\<close>: an unsigned machine integer, taken here with the 64 bits it
  has on the common 64-bit platforms. Addition on \<open>64 word\<close> wraps around as \<^verbatim>\<open>size_t\<close> does.
\<close>

type_synonym HandlerId = "64 word"

text \<open>
  \<^verbatim>\<open>struct HandlerBase\<close> holds \<^verbatim>\<open>id\<close> and \<^verbatim>\<open>priority\<close>; the derived
  \<^verbatim>\<open>Handler<Args...>\<close> adds the callable \<^verbatim>\<open>func\<close>. The template arguments \<^verbatim>\<open>Args...\<close> are part
  of the dynamic type of the stored object; they are the field \<open>arg_types\<close>, a list of type names
  \<open>'t\<close>. The callable has the type \<open>'f\<close>, which registration and removal never look into;
  \<^verbatim>\<open>dispatch\<close> below applies it. The priority is a C++ \<^verbatim>\<open>int\<close> on which the program
  performs comparisons only and no arithmetic, so it is embedded into the integers, which keeps
  the order. The field \<^verbatim>\<open>id\<close> is named \<open>handler_id\<close> here, \<open>id\<close> being the identity function
  of HOL.
\<close>

record ('t, 'f) Handler =
  handler_id :: HandlerId
  priority :: int
  arg_types :: "'t list"
  func :: 'f

text \<open>
  The members \<^verbatim>\<open>handlers_\<close> (a \<^verbatim>\<open>std::map\<close> from event to a vector of handlers) and
  \<^verbatim>\<open>next_id_\<close> (initialised to 1). The member \<^verbatim>\<open>mutex_\<close> is taken for the whole body of each
  of the three operations, so that operations on one dispatcher are executed one after the other;
  the model is this sequential execution. The fields are named \<open>handlers\<close> and \<open>next_id\<close>:
  a name of Isabelle cannot end with an underscore.
\<close>

record ('e, 't, 'f) EventDispatcher =
  handlers :: "'e \<rightharpoonup> ('t, 'f) Handler list"
  next_id :: HandlerId

definition EventDispatcher_init :: "('e, 't, 'f) EventDispatcher" where
  "EventDispatcher_init = \<lparr>handlers = Map.empty, next_id = 1\<rparr>"

text \<open>The handlers stored for an event; no handlers when the map has no entry.\<close>

definition handler_list :: "('e, 't, 'f) EventDispatcher \<Rightarrow> 'e \<Rightarrow> ('t, 'f) Handler list" where
  "handler_list d event = (case handlers d event of None \<Rightarrow> [] | Some vec \<Rightarrow> vec)"

section \<open>registerHandler\<close>

text \<open>
  \<^verbatim>\<open>std::upper_bound(vec.begin(), vec.end(), priority, comp)\<close> with
  \<^verbatim>\<open>comp(p, h) = p > h->priority\<close>: the furthest position such that \<^verbatim>\<open>comp\<close> is false for
  every element before it, as an index into the vector.
\<close>

fun upper_bound :: "('t, 'f) Handler list \<Rightarrow> int \<Rightarrow> nat" where
  "upper_bound [] p = 0"
| "upper_bound (h # vec) p = (if p > priority h then 0 else Suc (upper_bound vec p))"

text \<open>\<^verbatim>\<open>vec.insert(it, x)\<close>: the element is placed before position \<open>it\<close>.\<close>

definition vec_insert :: "nat \<Rightarrow> 'a \<Rightarrow> 'a list \<Rightarrow> 'a list" where
  "vec_insert it x vec = take it vec @ x # drop it vec"

text \<open>
  \<^verbatim>\<open>registerHandler<Args...>(event, callable, priority)\<close>. The post-increment
  \<^verbatim>\<open>next_id_++\<close> yields the old value of the counter; \<^verbatim>\<open>handlers_[event]\<close> creates an empty
  vector when the event has no entry yet.
\<close>

definition registerHandler ::
  "'e \<Rightarrow> 't list \<Rightarrow> 'f \<Rightarrow> int \<Rightarrow> ('e, 't, 'f) EventDispatcher
    \<Rightarrow> HandlerId \<times> ('e, 't, 'f) EventDispatcher" where
  "registerHandler event Args callable prio d =
     (let ident = next_id d;
          d1 = d\<lparr>next_id := next_id d + 1\<rparr>;
          handler = \<lparr>handler_id = ident, priority = prio, arg_types = Args, func = callable\<rparr>;
          vec = (case handlers d1 event of None \<Rightarrow> [] | Some v \<Rightarrow> v);
          it = upper_bound vec prio
      in (ident, d1\<lparr>handlers := (handlers d1)(event \<mapsto> vec_insert it handler vec)\<rparr>))"

section \<open>unregisterHandler\<close>

text \<open>
  \<^verbatim>\<open>vec.erase(std::remove_if(vec.begin(), vec.end(), pred), vec.end())\<close>: the elements that
  satisfy the predicate are dropped, the others keep their relative order.
\<close>

fun erase_remove_if :: "('a \<Rightarrow> bool) \<Rightarrow> 'a list \<Rightarrow> 'a list" where
  "erase_remove_if pred [] = []"
| "erase_remove_if pred (x # xs) =
     (if pred x then erase_remove_if pred xs else x # erase_remove_if pred xs)"

definition unregisterHandler ::
  "'e \<Rightarrow> HandlerId \<Rightarrow> ('e, 't, 'f) EventDispatcher \<Rightarrow> ('e, 't, 'f) EventDispatcher" where
  "unregisterHandler event ident d =
     (case handlers d event of
        None \<Rightarrow> d
      | Some vec \<Rightarrow>
          d\<lparr>handlers := (handlers d)(event \<mapsto> erase_remove_if (\<lambda>h. handler_id h = ident) vec)\<rparr>)"

section \<open>dispatch\<close>

text \<open>
  \<^verbatim>\<open>dispatch(event, args...)\<close> builds a tuple of the decayed argument types and passes its
  address to \<^verbatim>\<open>call\<close> of the handlers of the vector, one after the other. An argument tuple
  is a list of values \<open>'v\<close>, each with the name of its type.

  \<^verbatim>\<open>Handler<Args...>::call(void*)\<close> casts the pointer to \<^verbatim>\<open>std::tuple<Args...>*\<close> without any
  check and applies \<^verbatim>\<open>func\<close> to the components. When the tuple has the types \<^verbatim>\<open>Args...\<close>
  the callable is applied to the supplied values (\<open>Applied\<close>). Otherwise the callable is applied
  to a reinterpretation of the memory of a tuple of another type (\<open>Reinterpreted\<close>).
\<close>

datatype ('v, 'f) Effect = Applied 'f "'v list" | Reinterpreted

definition Handler_call :: "('t, 'f) Handler \<Rightarrow> ('t \<times> 'v) list \<Rightarrow> ('v, 'f) Effect" where
  "Handler_call h tup =
     (if arg_types h = map fst tup then Applied (func h) (map snd tup) else Reinterpreted)"

text \<open>
  How a call ends, and with it how the loop and \<^verbatim>\<open>dispatch\<close> end. For \<^verbatim>\<open>dispatch\<close> a
  callable is a body that, applied to argument values, either returns (\<open>None\<close>) or throws an
  exception \<open>x\<close> (\<open>Some x\<close>). Neither \<^verbatim>\<open>call\<close> nor \<^verbatim>\<open>dispatch\<close> catches anything: an
  exception that leaves a body leaves \<^verbatim>\<open>dispatch\<close>, and the handlers after it are not called.
  The call on a reinterpreted tuple has undefined behaviour: it may return, throw or crash, so
  the model ends the execution there with \<open>Undefined\<close> and says nothing of what follows.
\<close>

datatype 'x Completion = Returns | Throws 'x | Undefined

type_synonym ('v, 'x) Callable = "'v list \<Rightarrow> 'x option"

fun call_outcome :: "('v, ('v, 'x) Callable) Effect \<Rightarrow> 'x Completion" where
  "call_outcome (Applied body args) = (case body args of None \<Rightarrow> Returns | Some x \<Rightarrow> Throws x)"
| "call_outcome Reinterpreted = Undefined"

text \<open>One iteration of the loop of \<^verbatim>\<open>dispatch\<close>: which handler was called, and to what effect.\<close>

datatype ('t, 'v, 'f) Invocation =
  Invocation (callee: "('t, 'f) Handler") (effect: "('v, 'f) Effect")

text \<open>
  The loop \<^verbatim>\<open>for (auto& handler : it->second) handler->call(&tup)\<close>: the calls made, in order,
  and how the loop ends. It goes on to the next handler only when the call has returned.
\<close>

fun call_each ::
  "('t, ('v, 'x) Callable) Handler list \<Rightarrow> ('t \<times> 'v) list
    \<Rightarrow> ('t, 'v, ('v, 'x) Callable) Invocation list \<times> 'x Completion" where
  "call_each [] tup = ([], Returns)"
| "call_each (handler # rest) tup =
     (case call_outcome (Handler_call handler tup) of
        Returns \<Rightarrow>
          (Invocation handler (Handler_call handler tup) # fst (call_each rest tup),
           snd (call_each rest tup))
      | Throws x \<Rightarrow> ([Invocation handler (Handler_call handler tup)], Throws x)
      | Undefined \<Rightarrow> ([Invocation handler (Handler_call handler tup)], Undefined))"

text \<open>
  The result is the sequence of invocations and the way \<^verbatim>\<open>dispatch\<close> ends, together with the
  dispatcher state after the call. \<^verbatim>\<open>dispatch\<close> is a \<^verbatim>\<open>const\<close> member function that writes
  no member on any path, and the lock is released when the scope is left, by return or by
  exception.
\<close>

definition dispatch ::
  "'e \<Rightarrow> ('t \<times> 'v) list \<Rightarrow> ('e, 't, ('v, 'x) Callable) EventDispatcher
    \<Rightarrow> (('t, 'v, ('v, 'x) Callable) Invocation list \<times> 'x Completion)
        \<times> ('e, 't, ('v, 'x) Callable) EventDispatcher" where
  "dispatch event tup d =
     (case handlers d event of
        None \<Rightarrow> (([], Returns), d)
      | Some vec \<Rightarrow> (call_each vec tup, d))"

section \<open>Sequences of operations\<close>

text \<open>
  The operations of a caller. The callables are bodies as \<^verbatim>\<open>dispatch\<close> takes them.
\<close>

datatype ('e, 't, 'v, 'x) Op =
  Register 'e "'t list" "('v, 'x) Callable" int
| Unregister 'e HandlerId
| Dispatch 'e "('t \<times> 'v) list"

fun apply_op ::
  "('e, 't, 'v, 'x) Op \<Rightarrow> ('e, 't, ('v, 'x) Callable) EventDispatcher
    \<Rightarrow> ('e, 't, ('v, 'x) Callable) EventDispatcher" where
  "apply_op (Register event Args callable prio) d = snd (registerHandler event Args callable prio d)"
| "apply_op (Unregister event ident) d = unregisterHandler event ident d"
| "apply_op (Dispatch event tup) d = snd (dispatch event tup d)"

text \<open>The state after a sequence of operations.\<close>

fun run ::
  "('e, 't, 'v, 'x) Op list \<Rightarrow> ('e, 't, ('v, 'x) Callable) EventDispatcher
    \<Rightarrow> ('e, 't, ('v, 'x) Callable) EventDispatcher" where
  "run [] d = d"
| "run (op # ops) d = run ops (apply_op op d)"

text \<open>The handler ids that the \<^verbatim>\<open>registerHandler\<close> calls of a sequence return, in call order.\<close>

fun issued ::
  "('e, 't, 'v, 'x) Op list \<Rightarrow> ('e, 't, ('v, 'x) Callable) EventDispatcher \<Rightarrow> HandlerId list" where
  "issued [] d = []"
| "issued (Register event Args callable prio # ops) d =
     fst (registerHandler event Args callable prio d)
       # issued ops (snd (registerHandler event Args callable prio d))"
| "issued (op # ops) d = issued ops (apply_op op d)"

fun count_registers :: "('e, 't, 'v, 'x) Op list \<Rightarrow> nat" where
  "count_registers [] = 0"
| "count_registers (Register event Args callable prio # ops) = Suc (count_registers ops)"
| "count_registers (op # ops) = count_registers ops"

text \<open>
  The registration log of an event: the handlers that a sequence of operations registers for
  the event, in the order of the \<^verbatim>\<open>registerHandler\<close> calls, without those that an
  \<^verbatim>\<open>unregisterHandler\<close> call for the event has removed since. It is the reference for
  "insertion order": a new handler goes to the end of the log, whatever its priority.
\<close>

fun registration_log ::
  "'e \<Rightarrow> ('e, 't, 'v, 'x) Op list \<Rightarrow> ('e, 't, ('v, 'x) Callable) EventDispatcher
    \<Rightarrow> ('t, ('v, 'x) Callable) Handler list \<Rightarrow> ('t, ('v, 'x) Callable) Handler list" where
  "registration_log c [] d log = log"
| "registration_log c (Register event Args callable prio # ops) d log =
     registration_log c ops (snd (registerHandler event Args callable prio d))
       (if event = c
        then log @ [\<lparr>handler_id = fst (registerHandler event Args callable prio d),
                     priority = prio, arg_types = Args, func = callable\<rparr>]
        else log)"
| "registration_log c (Unregister event ident # ops) d log =
     registration_log c ops (unregisterHandler event ident d)
       (if event = c then filter (\<lambda>h. handler_id h \<noteq> ident) log else log)"
| "registration_log c (Dispatch event tup # ops) d log =
     registration_log c ops (snd (dispatch event tup d)) log"

section \<open>Notions used to state the properties\<close>

text \<open>The handlers that a \<^verbatim>\<open>dispatch\<close> call invokes, in the order of the calls.\<close>

definition invoked ::
  "'e \<Rightarrow> ('t \<times> 'v) list \<Rightarrow> ('e, 't, ('v, 'x) Callable) EventDispatcher
    \<Rightarrow> ('t, ('v, 'x) Callable) Handler list" where
  "invoked event tup d = map callee (fst (fst (dispatch event tup d)))"

text \<open>
  The call of a handler on a tuple returns: the types match and the body does not throw.
\<close>

definition call_returns :: "('t \<times> 'v) list \<Rightarrow> ('t, ('v, 'x) Callable) Handler \<Rightarrow> bool" where
  "call_returns tup h \<longleftrightarrow> call_outcome (Handler_call h tup) = Returns"

text \<open>
  The part of a vector that a loop reaches when it stops after the first element that is not
  \<open>ok\<close>: the elements up to and including that one, and the whole vector when all are.
\<close>

fun reached :: "('a \<Rightarrow> bool) \<Rightarrow> 'a list \<Rightarrow> 'a list" where
  "reached ok [] = []"
| "reached ok (x # xs) = x # (if ok x then reached ok xs else [])"

text \<open>A body that returns, as the bodies of the lambdas that the drivers register do.\<close>

definition returning :: "('v, 'x) Callable" where
  "returning args = None"

text \<open>A body that throws the exception \<open>x\<close>.\<close>

definition throwing :: "'x \<Rightarrow> ('v, 'x) Callable" where
  "throwing x args = Some x"

text \<open>
  A list of handlers is in stable priority order with respect to a registration log when it is
  sorted by descending priority, holds the same handlers as the log, and lists the handlers of
  every single priority in the order of the log.
\<close>

definition stable_order :: "('t, 'f) Handler list \<Rightarrow> ('t, 'f) Handler list \<Rightarrow> bool" where
  "stable_order vec log \<longleftrightarrow>
     sorted_wrt (\<lambda>a b. priority a \<ge> priority b) vec
     \<and> mset vec = mset log
     \<and> (\<forall>k. filter (\<lambda>h. priority h = k) vec = filter (\<lambda>h. priority h = k) log)"

text \<open>
  A sequence of \<^verbatim>\<open>registerHandler\<close> calls for one event, each given by its argument types,
  callable and priority: the ids returned and the state reached, the same calls as operations,
  and the handler objects that the calls construct from the ids.
\<close>

fun register_all ::
  "'e \<Rightarrow> ('t list \<times> 'f \<times> int) list \<Rightarrow> ('e, 't, 'f) EventDispatcher
    \<Rightarrow> HandlerId list \<times> ('e, 't, 'f) EventDispatcher" where
  "register_all c [] d = ([], d)"
| "register_all c ((Args, callable, prio) # regs) d =
     (fst (registerHandler c Args callable prio d)
        # fst (register_all c regs (snd (registerHandler c Args callable prio d))),
      snd (register_all c regs (snd (registerHandler c Args callable prio d))))"

definition register_ops ::
  "'e \<Rightarrow> ('t list \<times> ('v, 'x) Callable \<times> int) list \<Rightarrow> ('e, 't, 'v, 'x) Op list" where
  "register_ops c regs = map (\<lambda>(Args, callable, prio). Register c Args callable prio) regs"

definition registered_handlers :: "HandlerId list \<Rightarrow> ('t list \<times> 'f \<times> int) list \<Rightarrow> ('t, 'f) Handler list" where
  "registered_handlers ids regs =
     map (\<lambda>(ident, Args, callable, prio).
            \<lparr>handler_id = ident, priority = prio, arg_types = Args, func = callable\<rparr>) (zip ids regs)"

text \<open>
  The dispatcher of \<^verbatim>\<open>benchmark()\<close>: three handlers of an \<^verbatim>\<open>int\<close> argument registered for
  \<^verbatim>\<open>EventA\<close> with the priorities 5, 10 and 7. Type names are written as strings, argument
  values are integers, and the three bodies return.
\<close>

definition benchmark_dispatcher :: "(EventType, string, (int, string) Callable) EventDispatcher" where
  "benchmark_dispatcher =
     snd (register_all EventA
            [([''int''], returning, 5), ([''int''], returning, 10), ([''int''], returning, 7)]
            EventDispatcher_init)"

text \<open>
  After \<open>n\<close> registrations without wrap-around of the counter: the counter stands at \<open>n + 1\<close>,
  every stored id is one of the \<open>n\<close> ids issued so far, and no id is stored twice, neither in
  one vector nor in the vectors of two events.
\<close>

definition ids_fresh :: "nat \<Rightarrow> ('e, 't, 'f) EventDispatcher \<Rightarrow> bool" where
  "ids_fresh n d \<longleftrightarrow>
     next_id d = 1 + of_nat n
     \<and> (\<forall>c. \<forall>h \<in> set (handler_list d c). \<exists>k<n. handler_id h = 1 + of_nat k)
     \<and> (\<forall>c. distinct (map handler_id (handler_list d c)))
     \<and> (\<forall>c c'. c \<noteq> c' \<longrightarrow>
           handler_id ` set (handler_list d c) \<inter> handler_id ` set (handler_list d c') = {})"

section \<open>Basic facts about the operations\<close>

lemma erase_remove_if_filter: "erase_remove_if pred xs = filter (\<lambda>x. \<not> pred x) xs"
  by (induction xs) simp_all

lemma upper_bound_takeWhile:
  "upper_bound vec p = length (takeWhile (\<lambda>h. p \<le> priority h) vec)"
  by (induction vec) simp_all

lemma vec_insert_upper_bound:
  "vec_insert (upper_bound vec p) x vec =
     takeWhile (\<lambda>h. p \<le> priority h) vec @ x # dropWhile (\<lambda>h. p \<le> priority h) vec"
  by (induction vec) (simp_all add: vec_insert_def)

lemma set_reached: "set (reached ok xs) \<subseteq> set xs"
  by (induction xs) auto

lemma reached_all: "\<forall>x \<in> set xs. ok x \<Longrightarrow> reached ok xs = xs"
  by (induction xs) simp_all

lemma reached_append_stop:
  "\<forall>x \<in> set pre. ok x \<Longrightarrow> \<not> ok h \<Longrightarrow> reached ok (pre @ h # post) = pre @ [h]"
  by (induction pre) simp_all

lemma sorted_wrt_reached: "sorted_wrt P xs \<Longrightarrow> sorted_wrt P (reached ok xs)"
proof (induction xs)
  case Nil
  then show ?case by simp
next
  case (Cons x xs)
  then show ?case using set_reached [of ok xs] by auto
qed

lemma callee_call_each: "map callee (fst (call_each vec tup)) = reached (call_returns tup) vec"
  by (induction vec) (simp_all add: call_returns_def split: Completion.split)

lemma call_each_all_return:
  "\<forall>h \<in> set vec. call_returns tup h \<Longrightarrow> snd (call_each vec tup) = Returns"
  by (induction vec) (simp_all add: call_returns_def)

lemma call_returns_Applied:
  "call_returns tup h \<Longrightarrow> Handler_call h tup = Applied (func h) (map snd tup)"
  by (auto simp: call_returns_def Handler_call_def split: if_splits)

lemma call_each_append_stop:
  assumes "\<forall>g \<in> set pre. call_returns tup g" and "\<not> call_returns tup h"
  shows "call_each (pre @ h # post) tup =
     (map (\<lambda>g. Invocation g (Handler_call g tup)) pre @ [Invocation h (Handler_call h tup)],
      call_outcome (Handler_call h tup))"
  using assms
  by (induction pre) (auto simp: call_returns_def split: Completion.split)

lemma effect_call_each:
  "map effect (fst (call_each vec tup))
     = map (\<lambda>h. Handler_call h tup) (reached (call_returns tup) vec)"
  by (induction vec) (simp_all add: call_returns_def split: Completion.split)

lemma handler_list_registerHandler:
  "handler_list (snd (registerHandler event Args callable prio d)) c =
     (if c = event
      then vec_insert (upper_bound (handler_list d event) prio)
             \<lparr>handler_id = next_id d, priority = prio, arg_types = Args, func = callable\<rparr>
             (handler_list d event)
      else handler_list d c)"
  by (simp add: registerHandler_def handler_list_def Let_def)

lemma fst_registerHandler: "fst (registerHandler event Args callable prio d) = next_id d"
  by (simp add: registerHandler_def Let_def)

lemma next_id_registerHandler:
  "next_id (snd (registerHandler event Args callable prio d)) = next_id d + 1"
  by (simp add: registerHandler_def Let_def)

lemma handler_list_unregisterHandler:
  "handler_list (unregisterHandler event ident d) c =
     (if c = event then filter (\<lambda>h. handler_id h \<noteq> ident) (handler_list d event)
      else handler_list d c)"
  by (simp add: unregisterHandler_def handler_list_def erase_remove_if_filter split: option.split)

lemma next_id_unregisterHandler: "next_id (unregisterHandler event ident d) = next_id d"
  by (simp add: unregisterHandler_def split: option.split)

lemma snd_dispatch: "snd (dispatch event tup d) = d"
  by (simp add: dispatch_def split: option.split)

lemma callee_dispatch:
  "map callee (fst (fst (dispatch event tup d))) = reached (call_returns tup) (handler_list d event)"
  by (simp add: dispatch_def handler_list_def callee_call_each split: option.split)

lemma fst_dispatch: "fst (dispatch event tup d) = call_each (handler_list d event) tup"
  by (simp add: dispatch_def handler_list_def split: option.split)

lemma invoked_reached: "invoked c tup d = reached (call_returns tup) (handler_list d c)"
  by (simp add: invoked_def callee_dispatch)

lemma invoked_all_return:
  "\<forall>h \<in> set (handler_list d c). call_returns tup h \<Longrightarrow> invoked c tup d = handler_list d c"
  by (simp add: invoked_reached reached_all)

lemma run_append: "run (ops1 @ ops2) d = run ops2 (run ops1 d)"
  by (induction ops1 arbitrary: d) simp_all

lemma benchmark_dispatcher_eq:
  "benchmark_dispatcher =
     \<lparr>handlers = [EventA \<mapsto>
         [\<lparr>handler_id = 2, priority = 10, arg_types = [''int''], func = returning\<rparr>,
          \<lparr>handler_id = 3, priority = 7, arg_types = [''int''], func = returning\<rparr>,
          \<lparr>handler_id = 1, priority = 5, arg_types = [''int''], func = returning\<rparr>]],
      next_id = 4\<rparr>"
  by (simp add: benchmark_dispatcher_def registerHandler_def EventDispatcher_init_def
      vec_insert_def Let_def)

section \<open>The order of a handler vector\<close>

lemma takeWhile_sorted_desc:
  "sorted_wrt (\<lambda>a b. priority a \<ge> priority b) vec \<Longrightarrow>
     takeWhile (\<lambda>h. p \<le> priority h) vec = filter (\<lambda>h. p \<le> priority h) vec"
  by (induction vec) (auto intro!: filter_False [symmetric])

lemma dropWhile_sorted_desc:
  "sorted_wrt (\<lambda>a b. priority a \<ge> priority b) vec \<Longrightarrow>
     dropWhile (\<lambda>h. p \<le> priority h) vec = filter (\<lambda>h. priority h < p) vec"
  by (induction vec) (auto intro!: filter_True [symmetric])

lemma insert_sorted_desc:
  assumes "sorted_wrt (\<lambda>a b. priority a \<ge> priority b) vec" and "priority x = p"
  shows "sorted_wrt (\<lambda>a b. priority a \<ge> priority b)
           (filter (\<lambda>h. p \<le> priority h) vec @ x # filter (\<lambda>h. priority h < p) vec)"
  using assms by (auto simp: sorted_wrt_append sorted_wrt_filter)

lemma split_sorted_desc:
  assumes "sorted_wrt (\<lambda>a b. priority a \<ge> priority b) vec"
  shows "filter (\<lambda>h. p \<le> priority h) vec @ filter (\<lambda>h. priority h < p) vec = vec"
  using takeWhile_sorted_desc [OF assms, of p] dropWhile_sorted_desc [OF assms, of p]
    takeWhile_dropWhile_id [of "\<lambda>h. p \<le> priority h" vec]
  by simp

lemma insert_filter_priority:
  assumes "sorted_wrt (\<lambda>a b. priority a \<ge> priority b) vec" and "priority x = p"
  shows "filter (\<lambda>h. priority h = k)
           (filter (\<lambda>h. p \<le> priority h) vec @ x # filter (\<lambda>h. priority h < p) vec)
         = filter (\<lambda>h. priority h = k) (vec @ [x])"
proof (cases "k = p")
  case True
  have "filter (\<lambda>h. priority h = p) (filter (\<lambda>h. priority h < p) vec) = []"
    by (simp add: filter_empty_conv)
  moreover have "filter (\<lambda>h. priority h = p) (filter (\<lambda>h. p \<le> priority h) vec)
      = filter (\<lambda>h. priority h = p) vec"
    by (simp, rule filter_cong) auto
  ultimately show ?thesis using True assms(2) by simp
next
  case False
  have "filter (\<lambda>h. priority h = k) vec =
     filter (\<lambda>h. priority h = k) (filter (\<lambda>h. p \<le> priority h) vec @ filter (\<lambda>h. priority h < p) vec)"
    by (simp only: split_sorted_desc [OF assms(1)])
  with False assms(2) show ?thesis by simp
qed

lemma stable_order_Nil: "stable_order [] []"
  by (simp add: stable_order_def)

lemma stable_order_register:
  assumes "stable_order vec log" and "priority x = p"
  shows "stable_order (vec_insert (upper_bound vec p) x vec) (log @ [x])"
proof -
  from assms(1) have s: "sorted_wrt (\<lambda>a b. priority a \<ge> priority b) vec"
    and m: "mset vec = mset log"
    and f: "\<And>k. filter (\<lambda>h. priority h = k) vec = filter (\<lambda>h. priority h = k) log"
    by (simp_all add: stable_order_def)
  have eq: "vec_insert (upper_bound vec p) x vec =
      filter (\<lambda>h. p \<le> priority h) vec @ x # filter (\<lambda>h. priority h < p) vec"
    by (simp add: vec_insert_upper_bound takeWhile_sorted_desc [OF s] dropWhile_sorted_desc [OF s])
  have "mset (filter (\<lambda>h. p \<le> priority h) vec @ filter (\<lambda>h. priority h < p) vec) = mset vec"
    by (simp only: split_sorted_desc [OF s])
  then have "mset (vec_insert (upper_bound vec p) x vec) = mset (log @ [x])"
    using m by (simp add: eq)
  moreover have "\<And>k. filter (\<lambda>h. priority h = k) (vec_insert (upper_bound vec p) x vec)
      = filter (\<lambda>h. priority h = k) (log @ [x])"
    using insert_filter_priority [OF s assms(2)] f by (simp add: eq)
  ultimately show ?thesis
    using insert_sorted_desc [OF s assms(2)] by (simp add: stable_order_def eq)
qed

lemma stable_order_unregister:
  assumes "stable_order vec log"
  shows "stable_order (filter P vec) (filter P log)"
proof -
  from assms have s: "sorted_wrt (\<lambda>a b. priority a \<ge> priority b) vec"
    and m: "mset vec = mset log"
    and f: "\<And>k. filter (\<lambda>h. priority h = k) vec = filter (\<lambda>h. priority h = k) log"
    by (simp_all add: stable_order_def)
  have "\<And>k. filter (\<lambda>h. priority h = k) (filter P vec) = filter (\<lambda>h. priority h = k) (filter P log)"
  proof -
    fix k
    have "filter P (filter (\<lambda>h. priority h = k) vec) = filter P (filter (\<lambda>h. priority h = k) log)"
      by (simp only: f)
    then show "filter (\<lambda>h. priority h = k) (filter P vec) = filter (\<lambda>h. priority h = k) (filter P log)"
      by (simp add: conj_commute)
  qed
  moreover have "mset (filter P vec) = mset (filter P log)"
    using m by (metis mset_filter)
  ultimately show ?thesis using s by (simp add: stable_order_def sorted_wrt_filter)
qed

lemma stable_order_run:
  "stable_order (handler_list d c) log \<Longrightarrow>
     stable_order (handler_list (run ops d) c) (registration_log c ops d log)"
proof (induction ops arbitrary: d log)
  case Nil
  then show ?case by simp
next
  case (Cons op ops)
  show ?case
  proof (cases op)
    case (Register event Args callable prio)
    have "stable_order (handler_list (snd (registerHandler event Args callable prio d)) c)
            (if event = c
             then log @ [\<lparr>handler_id = fst (registerHandler event Args callable prio d),
                     priority = prio, arg_types = Args, func = callable\<rparr>]
             else log)"
      using Cons.prems
      by (simp add: handler_list_registerHandler fst_registerHandler stable_order_register)
    from Cons.IH [OF this] show ?thesis using Register by simp
  next
    case (Unregister event ident)
    have "stable_order (handler_list (unregisterHandler event ident d) c)
            (if event = c then filter (\<lambda>h. handler_id h \<noteq> ident) log else log)"
      using Cons.prems by (simp add: handler_list_unregisterHandler stable_order_unregister)
    from Cons.IH [OF this] show ?thesis using Unregister by simp
  next
    case (Dispatch event tup)
    from Cons.IH [of d log] Cons.prems show ?thesis using Dispatch by (simp add: snd_dispatch)
  qed
qed

lemma stable_order_sort_key:
  assumes "stable_order vec log"
  shows "vec = sort_key (\<lambda>h. - priority h) log"
proof (rule properties_for_sort_key [symmetric])
  show "mset vec = mset log" using assms by (simp add: stable_order_def)
  show "sorted (map (\<lambda>h. - priority h) vec)"
    using assms by (simp add: stable_order_def sorted_map)
  fix k
  have "filter (\<lambda>h. priority h = priority k) vec = filter (\<lambda>h. priority h = priority k) log"
    using assms by (simp add: stable_order_def)
  then show "filter (\<lambda>x. - priority k = - priority x) vec = filter (\<lambda>x. - priority k = - priority x) log"
    by (simp add: eq_commute)
qed

lemma register_all_ops:
  "register_all c regs d =
     (issued (register_ops c regs :: ('e, 't, 'v, 'x) Op list) d,
      run (register_ops c regs :: ('e, 't, 'v, 'x) Op list) d)"
  by (induction c regs d rule: register_all.induct) (simp_all add: register_ops_def)

lemma registration_log_register_ops:
  "registration_log c (register_ops c regs :: ('e, 't, 'v, 'x) Op list) d log
     = log @ registered_handlers (issued (register_ops c regs :: ('e, 't, 'v, 'x) Op list) d) regs"
proof (induction regs arbitrary: d log)
  case Nil
  then show ?case by (simp add: register_ops_def registered_handlers_def)
next
  case (Cons r regs)
  obtain Args callable prio where r: "r = (Args, callable, prio)" by (cases r)
  show ?case
    using Cons.IH [of "snd (registerHandler c Args callable prio d)"]
    by (simp add: r register_ops_def registered_handlers_def)
qed

lemma stable_order_register_all:
  fixes d :: "('e, 't, ('v, 'x) Callable) EventDispatcher"
  assumes "handler_list d c = []"
  shows "stable_order (handler_list (snd (register_all c regs d)) c)
           (registered_handlers (fst (register_all c regs d)) regs)"
  using assms stable_order_run [of d c "[]" "register_ops c regs :: ('e, 't, 'v, 'x) Op list"]
  by (simp add: register_all_ops registration_log_register_ops stable_order_Nil)

subsection \<open>The precondition of the search\<close>

text \<open>
  \<^verbatim>\<open>std::upper_bound\<close> requires a range that is partitioned by the comparison: no element
  before some position satisfies \<^verbatim>\<open>comp(p, h)\<close> and every element from it on does. Such a
  position is unique and is the value of \<open>upper_bound\<close>, whatever search the library performs;
  a vector sorted by descending priority is partitioned for every priority.
\<close>

lemma upper_bound_le_length: "upper_bound vec p \<le> length vec"
  by (induction vec) simp_all

lemma upper_bound_partition_point:
  assumes "k \<le> length vec"
    and "\<And>i. i < k \<Longrightarrow> \<not> p > priority (vec ! i)"
    and "\<And>i. k \<le> i \<Longrightarrow> i < length vec \<Longrightarrow> p > priority (vec ! i)"
  shows "upper_bound vec p = k"
proof -
  have "takeWhile (\<lambda>h. p \<le> priority h) vec = take k vec"
  proof (rule takeWhile_eq_take_P_nth)
    fix i assume "i < k" "i < length vec"
    with assms(2) [of i] show "p \<le> priority (vec ! i)" by simp
  next
    assume "k < length vec"
    with assms(3) [of k] show "\<not> p \<le> priority (vec ! k)" by simp
  qed
  with assms(1) show ?thesis by (simp add: upper_bound_takeWhile)
qed

lemma sorted_desc_partitioned:
  assumes "sorted_wrt (\<lambda>a b. priority a \<ge> priority b) vec"
  shows "(\<forall>i < upper_bound vec p. \<not> p > priority (vec ! i))
    \<and> (\<forall>i. upper_bound vec p \<le> i \<and> i < length vec \<longrightarrow> p > priority (vec ! i))"
proof (intro conjI allI impI)
  fix i assume "i < upper_bound vec p"
  then have "i < length (takeWhile (\<lambda>h. p \<le> priority h) vec)"
    by (simp add: upper_bound_takeWhile)
  then have "p \<le> priority (vec ! i)"
    using nth_mem [of i "takeWhile (\<lambda>h. p \<le> priority h) vec"]
    by (auto simp: takeWhile_nth dest: set_takeWhileD)
  then show "\<not> p > priority (vec ! i)" by simp
next
  fix i assume i: "upper_bound vec p \<le> i \<and> i < length vec"
  let ?k = "upper_bound vec p"
  from i have k: "?k < length vec" by simp
  then have "\<not> p \<le> priority (vec ! ?k)"
    unfolding upper_bound_takeWhile by (rule nth_length_takeWhile)
  moreover have "priority (vec ! i) \<le> priority (vec ! ?k)"
  proof (cases "i = ?k")
    case True
    then show ?thesis by simp
  next
    case False
    with i have "?k < i" by simp
    with assms i show ?thesis by (simp add: sorted_wrt_iff_nth_less)
  qed
  ultimately show "p > priority (vec ! i)" by simp
qed

section \<open>The id counter\<close>

lemma next_id_apply_op:
  "next_id (apply_op op d) = next_id d + of_nat (count_registers [op])"
  by (cases op) (simp_all add: next_id_registerHandler next_id_unregisterHandler snd_dispatch)

lemma next_id_run: "next_id (run ops d) = next_id d + of_nat (count_registers ops)"
proof (induction ops arbitrary: d)
  case Nil
  then show ?case by simp
next
  case (Cons op ops)
  then show ?case
    by (cases op) (simp_all add: next_id_registerHandler next_id_unregisterHandler snd_dispatch)
qed

lemma issued_eq:
  "issued ops d = map (\<lambda>k. next_id d + of_nat k) [0..<count_registers ops]"
proof (induction ops arbitrary: d)
  case Nil
  then show ?case by simp
next
  case (Cons op ops)
  show ?case
  proof (cases op)
    case (Register event Args callable prio)
    have "[0..<Suc (count_registers ops)] = 0 # map Suc [0..<count_registers ops]"
      by (simp add: upt_conv_Cons map_Suc_upt del: upt_Suc)
    then show ?thesis
      using Register Cons.IH [of "snd (registerHandler event Args callable prio d)"]
      by (simp add: fst_registerHandler next_id_registerHandler add.assoc del: upt_Suc)
  next
    case (Unregister event ident)
    then show ?thesis using Cons.IH [of "unregisterHandler event ident d"]
      by (simp add: next_id_unregisterHandler)
  next
    case (Dispatch event tup)
    then show ?thesis using Cons.IH [of d] by (simp add: snd_dispatch)
  qed
qed

lemma word64_of_nat_inj:
  "i < 2 ^ 64 \<Longrightarrow> j < 2 ^ 64 \<Longrightarrow> (of_nat i :: 64 word) = of_nat j \<Longrightarrow> i = j"
  by (simp add: word_of_nat_eq_iff take_bit_nat_eq_self)

lemma word64_Suc_nonzero:
  assumes "Suc k < 2 ^ 64"
  shows "(1 + of_nat k :: 64 word) \<noteq> 0"
proof
  assume "(1 + of_nat k :: 64 word) = 0"
  then have "(of_nat (Suc k) :: 64 word) = 0" by simp
  then have "(2::nat) ^ 64 dvd Suc k" by (simp only: word_of_nat_eq_0_iff) simp
  with assms show False by (auto dest: dvd_imp_le)
qed

section \<open>Frame and absence lemmas for unregisterHandler and registerHandler\<close>

lemma unregisterHandler_absent:
  assumes "handlers d c = None \<or> ident \<notin> handler_id ` set (handler_list d c)"
  shows "unregisterHandler c ident d = d"
proof (cases "handlers d c")
  case None
  then show ?thesis by (simp add: unregisterHandler_def)
next
  case (Some vec)
  with assms have "\<forall>h \<in> set vec. handler_id h \<noteq> ident"
    by (auto simp: handler_list_def)
  then have "filter (\<lambda>h. handler_id h \<noteq> ident) vec = vec"
    by simp
  with Some have "(handlers d)(c \<mapsto> erase_remove_if (\<lambda>h. handler_id h = ident) vec) = handlers d"
    by (simp add: erase_remove_if_filter fun_upd_idem)
  with Some show ?thesis by (simp add: unregisterHandler_def)
qed

lemma unregisterHandler_idem:
  "unregisterHandler c ident (unregisterHandler c ident d) = unregisterHandler c ident d"
  by (rule unregisterHandler_absent) (auto simp: handler_list_unregisterHandler)

lemma handlers_unregisterHandler_other:
  "c' \<noteq> c \<Longrightarrow> handlers (unregisterHandler c ident d) c' = handlers d c'"
  by (simp add: unregisterHandler_def split: option.split)

lemma handlers_registerHandler_other:
  "c' \<noteq> c \<Longrightarrow> handlers (snd (registerHandler c Args callable prio d)) c' = handlers d c'"
  by (simp add: registerHandler_def Let_def)

lemma length_filter_distinct_id:
  assumes "distinct (map handler_id vec)" and "ident \<in> handler_id ` set vec"
  shows "Suc (length (filter (\<lambda>h. handler_id h \<noteq> ident) vec)) = length vec"
  using assms
proof (induction vec)
  case Nil
  then show ?case by simp
next
  case (Cons h vec)
  show ?case
  proof (cases "handler_id h = ident")
    case True
    with Cons.prems(1) have "ident \<notin> handler_id ` set vec" by auto
    then have "\<forall>x \<in> set vec. handler_id x \<noteq> ident" by blast
    then have "filter (\<lambda>h. handler_id h \<noteq> ident) vec = vec" by simp
    with True show ?thesis by simp
  next
    case False
    with Cons show ?thesis by auto
  qed
qed

section \<open>Uniqueness of the stored ids\<close>

lemma ids_freshI:
  assumes "next_id d = 1 + of_nat n"
    and "\<And>c h. h \<in> set (handler_list d c) \<Longrightarrow> \<exists>k<n. handler_id h = 1 + of_nat k"
    and "\<And>c. distinct (map handler_id (handler_list d c))"
    and "\<And>c c'. c \<noteq> c' \<Longrightarrow>
           handler_id ` set (handler_list d c) \<inter> handler_id ` set (handler_list d c') = {}"
  shows "ids_fresh n d"
  unfolding ids_fresh_def using assms by (intro conjI allI ballI impI)

lemma mset_vec_insert: "mset (vec_insert it x vec) = add_mset x (mset vec)"
proof -
  have "mset (take it vec @ drop it vec) = mset vec" by simp
  then show ?thesis by (simp add: vec_insert_def del: append_take_drop_id)
qed

lemma set_vec_insert: "set (vec_insert it x vec) = insert x (set vec)"
  using mset_vec_insert [of it x vec, THEN arg_cong, of set_mset] by simp

lemma distinct_map_vec_insert:
  "distinct (map f (vec_insert it x vec)) \<longleftrightarrow> f x \<notin> f ` set vec \<and> distinct (map f vec)"
proof -
  have "mset (map f (vec_insert it x vec)) = mset (map f (x # vec))"
    by (simp add: mset_vec_insert)
  then have "distinct (map f (vec_insert it x vec)) \<longleftrightarrow> distinct (map f (x # vec))"
    by (rule mset_eq_imp_distinct_iff)
  then show ?thesis by simp
qed

lemma ids_fresh_init: "ids_fresh 0 EventDispatcher_init"
  by (simp add: ids_fresh_def EventDispatcher_init_def handler_list_def)

lemma ids_handler_list_registerHandler:
  "handler_id ` set (handler_list (snd (registerHandler e Args callable prio d)) c) =
     (if c = e then insert (next_id d) (handler_id ` set (handler_list d e))
      else handler_id ` set (handler_list d c))"
  by (simp add: handler_list_registerHandler set_vec_insert)

lemma ids_fresh_register:
  assumes "ids_fresh n d" and "n < 2 ^ 64"
  shows "ids_fresh (Suc n) (snd (registerHandler e Args callable prio d))"
proof -
  let ?d' = "snd (registerHandler e Args callable prio d)"
  from assms(1) have nx: "next_id d = 1 + of_nat n"
    and below: "\<And>c h. h \<in> set (handler_list d c) \<Longrightarrow> \<exists>k<n. handler_id h = 1 + of_nat k"
    and dist: "\<And>c. distinct (map handler_id (handler_list d c))"
    and disj: "\<And>c c'. c \<noteq> c' \<Longrightarrow>
           handler_id ` set (handler_list d c) \<inter> handler_id ` set (handler_list d c') = {}"
    unfolding ids_fresh_def by blast+
  have fresh: "next_id d \<notin> handler_id ` set (handler_list d c)" for c
  proof
    assume "next_id d \<in> handler_id ` set (handler_list d c)"
    then obtain h where h: "h \<in> set (handler_list d c)" "handler_id h = next_id d" by auto
    from below [OF h(1)] obtain k where k: "k < n" "handler_id h = 1 + of_nat k" by blast
    from k(2) h(2) nx have "(of_nat k :: 64 word) = of_nat n" by simp
    moreover from k(1) assms(2) have "k < 2 ^ 64" by simp
    ultimately have "k = n" using assms(2) by (rule word64_of_nat_inj [rotated 2])
    with k(1) show False by simp
  qed
  have g1: "next_id ?d' = 1 + of_nat (Suc n)"
    by (simp add: next_id_registerHandler nx)
  have g2: "\<exists>k<Suc n. handler_id h = 1 + of_nat k" if "h \<in> set (handler_list ?d' c)" for c h
  proof -
    from that have "handler_id h \<in> handler_id ` set (handler_list ?d' c)" by (rule imageI)
    then have "handler_id h = next_id d \<or> handler_id h \<in> handler_id ` set (handler_list d c)"
      by (simp add: ids_handler_list_registerHandler split: if_splits)
    then show ?thesis
    proof
      assume "handler_id h = next_id d"
      then have "n < Suc n \<and> handler_id h = 1 + of_nat n" by (simp add: nx)
      then show ?thesis by (rule exI)
    next
      assume "handler_id h \<in> handler_id ` set (handler_list d c)"
      then obtain h' where h': "h' \<in> set (handler_list d c)" "handler_id h = handler_id h'"
        by auto
      from below [OF h'(1)] obtain k where "k < n" "handler_id h' = 1 + of_nat k" by blast
      with h'(2) have "k < Suc n \<and> handler_id h = 1 + of_nat k" by simp
      then show ?thesis by (rule exI)
    qed
  qed
  have g3: "distinct (map handler_id (handler_list ?d' c))" for c
    using dist [of c] fresh [of c]
    by (cases "c = e") (simp_all add: handler_list_registerHandler distinct_map_vec_insert)
  have g4: "handler_id ` set (handler_list ?d' c) \<inter> handler_id ` set (handler_list ?d' c') = {}"
    if "c \<noteq> c'" for c c'
  proof (cases "c = e")
    case True
    with that have "c' \<noteq> e" by simp
    with True disj [OF that] fresh [of c'] show ?thesis
      by (simp add: ids_handler_list_registerHandler)
  next
    case False
    with disj [OF that] fresh [of c] show ?thesis
      by (cases "c' = e") (simp_all add: ids_handler_list_registerHandler)
  qed
  show ?thesis by (rule ids_freshI [OF g1 g2 g3 g4])
qed

lemma ids_fresh_unregister:
  assumes "ids_fresh n d"
  shows "ids_fresh n (unregisterHandler e ident d)"
proof -
  let ?d' = "unregisterHandler e ident d"
  from assms have nx: "next_id d = 1 + of_nat n"
    and below: "\<And>c h. h \<in> set (handler_list d c) \<Longrightarrow> \<exists>k<n. handler_id h = 1 + of_nat k"
    and dist: "\<And>c. distinct (map handler_id (handler_list d c))"
    and disj: "\<And>c c'. c \<noteq> c' \<Longrightarrow>
           handler_id ` set (handler_list d c) \<inter> handler_id ` set (handler_list d c') = {}"
    unfolding ids_fresh_def by blast+
  have sub: "set (handler_list ?d' c) \<subseteq> set (handler_list d c)" for c
    by (auto simp: handler_list_unregisterHandler)
  have g1: "next_id ?d' = 1 + of_nat n"
    by (simp add: next_id_unregisterHandler nx)
  have g2: "\<exists>k<n. handler_id h = 1 + of_nat k" if "h \<in> set (handler_list ?d' c)" for c h
    using that sub [of c] below [of h c] by blast
  have g3: "distinct (map handler_id (handler_list ?d' c))" for c
    using dist [of c] dist [of e]
    by (cases "c = e") (simp_all add: handler_list_unregisterHandler distinct_map_filter)
  have g4: "handler_id ` set (handler_list ?d' c) \<inter> handler_id ` set (handler_list ?d' c') = {}"
    if "c \<noteq> c'" for c c'
    using disj [OF that] sub [of c] sub [of c'] by blast
  show ?thesis by (rule ids_freshI [OF g1 g2 g3 g4])
qed

lemma ids_fresh_run:
  "ids_fresh n d \<Longrightarrow> n + count_registers ops \<le> 2 ^ 64 \<Longrightarrow>
     ids_fresh (n + count_registers ops) (run ops d)"
proof (induction ops arbitrary: n d)
  case Nil
  then show ?case by simp
next
  case (Cons op ops)
  show ?case
  proof (cases op)
    case (Register e Args callable prio)
    with Cons.prems have "n < 2 ^ 64" by simp
    from ids_fresh_register [OF Cons.prems(1) this]
    have "ids_fresh (Suc n) (snd (registerHandler e Args callable prio d))" .
    from Cons.IH [OF this] Cons.prems(2) show ?thesis using Register by simp
  next
    case (Unregister e ident)
    from Cons.IH [OF ids_fresh_unregister [OF Cons.prems(1)]] Cons.prems(2)
    show ?thesis using Unregister by simp
  next
    case (Dispatch e tup)
    from Cons.IH [OF Cons.prems(1)] Cons.prems(2) show ?thesis using Dispatch
      by (simp add: snd_dispatch)
  qed
qed

lemma reachable_ids_unique:
  fixes ops :: "('e, 't, 'v, 'x) Op list"
  assumes "count_registers ops \<le> 2 ^ 64"
  shows "distinct (map handler_id (handler_list (run ops EventDispatcher_init) c))"
    and "c \<noteq> c' \<Longrightarrow> h \<in> set (handler_list (run ops EventDispatcher_init) c') \<Longrightarrow>
           handler_id h \<notin> handler_id ` set (handler_list (run ops EventDispatcher_init) c)"
proof -
  have f: "ids_fresh (count_registers ops) (run ops (EventDispatcher_init :: ('e, 't, ('v, 'x) Callable) EventDispatcher))"
    using ids_fresh_run [OF ids_fresh_init, of ops] assms by simp
  then show "distinct (map handler_id (handler_list (run ops EventDispatcher_init) c))"
    by (simp add: ids_fresh_def)
  show "handler_id h \<notin> handler_id ` set (handler_list (run ops EventDispatcher_init) c)"
    if "c \<noteq> c'" "h \<in> set (handler_list (run ops EventDispatcher_init) c')"
    using f that unfolding ids_fresh_def by blast
qed

section \<open>Properties of the dispatcher\<close>

text \<open>
  Claim C1. Starting from a dispatcher that holds no handler for an event, after any sequence of
  \<^verbatim>\<open>registerHandler\<close> calls for that event a \<^verbatim>\<open>dispatch\<close> goes through the registered
  handlers by descending priority (a handler of a higher priority always comes before one of a
  lower priority), the handlers of one priority in the order of their registration: it calls the
  handlers of the stable sort of the registered handlers by descending priority one after the
  other, as long as the calls return. When every call returns, that is the types match and no
  body throws, these are all the registered handlers, and the dispatch returns. In particular,
  after the registrations with priorities 5, 10 and 7, which return the ids 1, 2 and 3, the
  dispatch invokes the handlers 2, 3, 1.
\<close>

theorem dispatch_priority_order:
  "(handler_list d c = [] \<longrightarrow>
      invoked c tup (snd (register_all c regs d))
        = reached (call_returns tup)
            (sort_key (\<lambda>h. - priority h) (registered_handlers (fst (register_all c regs d)) regs))
    \<and> sorted_wrt (\<lambda>a b. priority a \<ge> priority b) (invoked c tup (snd (register_all c regs d)))
    \<and> ((\<forall>h \<in> set (registered_handlers (fst (register_all c regs d)) regs). call_returns tup h) \<longrightarrow>
          (\<forall>k. filter (\<lambda>h. priority h = k) (invoked c tup (snd (register_all c regs d)))
                = filter (\<lambda>h. priority h = k) (registered_handlers (fst (register_all c regs d)) regs))
        \<and> mset (invoked c tup (snd (register_all c regs d)))
                = mset (registered_handlers (fst (register_all c regs d)) regs)
        \<and> invoked c tup (snd (register_all c regs d))
                = sort_key (\<lambda>h. - priority h) (registered_handlers (fst (register_all c regs d)) regs)
        \<and> snd (fst (dispatch c tup (snd (register_all c regs d)))) = Returns))
   \<and> fst (register_all EventA [([''int''], returning, 5), ([''int''], returning, 10), ([''int''], returning, 7)]
            (EventDispatcher_init :: (EventType, string, (int, string) Callable) EventDispatcher))
       = [1, 2, 3]
   \<and> map handler_id (invoked EventA [(''int'', 42 :: int)]
        (snd (register_all EventA [([''int''], returning, 5), ([''int''], returning, 10), ([''int''], returning, 7)]
           (EventDispatcher_init :: (EventType, string, (int, string) Callable) EventDispatcher))))
       = [2, 3, 1]"
proof (intro conjI impI)
  let ?d' = "snd (register_all c regs d)"
  let ?H = "registered_handlers (fst (register_all c regs d)) regs"
  assume "handler_list d c = []"
  then have so: "stable_order (handler_list ?d' c) ?H"
    by (rule stable_order_register_all)
  then have hl: "handler_list ?d' c = sort_key (\<lambda>h. - priority h) ?H"
    by (rule stable_order_sort_key)
  show "invoked c tup ?d' = reached (call_returns tup) (sort_key (\<lambda>h. - priority h) ?H)"
    by (simp add: invoked_reached hl)
  from so have "sorted_wrt (\<lambda>a b. priority a \<ge> priority b) (handler_list ?d' c)"
    by (simp add: stable_order_def)
  then show "sorted_wrt (\<lambda>a b. priority a \<ge> priority b) (invoked c tup ?d')"
    unfolding invoked_reached by (rule sorted_wrt_reached)
  assume all: "\<forall>h \<in> set ?H. call_returns tup h"
  from so have "mset (handler_list ?d' c) = mset ?H"
    by (simp add: stable_order_def)
  then have "set (handler_list ?d' c) = set ?H"
    by (rule mset_eq_setD)
  with all have all': "\<forall>h \<in> set (handler_list ?d' c). call_returns tup h"
    by simp
  then have inv: "invoked c tup ?d' = handler_list ?d' c"
    by (rule invoked_all_return)
  from so show "\<forall>k. filter (\<lambda>h. priority h = k) (invoked c tup ?d') = filter (\<lambda>h. priority h = k) ?H"
    by (simp add: inv stable_order_def)
  from so show "mset (invoked c tup ?d') = mset ?H"
    by (simp add: inv stable_order_def)
  show "invoked c tup ?d' = sort_key (\<lambda>h. - priority h) ?H"
    by (simp only: inv hl)
  from all' show "snd (fst (dispatch c tup ?d')) = Returns"
    by (simp add: fst_dispatch call_each_all_return)
next
  show "fst (register_all EventA [([''int''], returning, 5), ([''int''], returning, 10), ([''int''], returning, 7)]
            (EventDispatcher_init :: (EventType, string, (int, string) Callable) EventDispatcher))
       = [1, 2, 3]"
    by (simp add: registerHandler_def EventDispatcher_init_def Let_def)
next
  show "map handler_id (invoked EventA [(''int'', 42 :: int)]
        (snd (register_all EventA [([''int''], returning, 5), ([''int''], returning, 10), ([''int''], returning, 7)]
           (EventDispatcher_init :: (EventType, string, (int, string) Callable) EventDispatcher))))
       = [2, 3, 1]"
    by (simp add: invoked_reached call_returns_def Handler_call_def returning_def handler_list_def
        registerHandler_def EventDispatcher_init_def vec_insert_def Let_def)
qed

theorem dispatch_priority_order_witness:
  "handler_list (EventDispatcher_init :: (EventType, string, (string, string) Callable) EventDispatcher)
      EventB = []
   \<and> map handler_id (invoked EventB [(''string'', ''Hello World'')]
       (snd (register_all EventB [([''string''], returning, 5), ([''string''], returning, 10),
              ([''string''], returning, 1), ([''string''], returning, 5)]
          (EventDispatcher_init :: (EventType, string, (string, string) Callable) EventDispatcher))))
     = [2, 1, 4, 3]
   \<and> snd (fst (dispatch EventB [(''string'', ''Hello World'')]
       (snd (register_all EventB [([''string''], returning, 5), ([''string''], returning, 10),
              ([''string''], returning, 1), ([''string''], returning, 5)]
          (EventDispatcher_init :: (EventType, string, (string, string) Callable) EventDispatcher)))))
     = Returns
   \<and> map handler_id (invoked EventB [(''string'', ''Hello World'')]
       (snd (register_all EventB [([''string''], returning, 5), ([''string''], returning, 10),
              ([''string''], throwing ''error'', 7), ([''string''], returning, 5)]
          (EventDispatcher_init :: (EventType, string, (string, string) Callable) EventDispatcher))))
     = [2, 3]"
proof -
  let ?d = "EventDispatcher_init :: (EventType, string, (string, string) Callable) EventDispatcher"
  let ?regs = "[([''string''], returning, 5), ([''string''], returning, 10),
              ([''string''], returning, 1), ([''string''], returning, 5 :: int)]
              :: (string list \<times> (string, string) Callable \<times> int) list"
  let ?regs' = "[([''string''], returning, 5), ([''string''], returning, 10),
              ([''string''], throwing ''error'', 7), ([''string''], returning, 5 :: int)]
              :: (string list \<times> (string, string) Callable \<times> int) list"
  let ?tup = "[(''string'', ''Hello World'')]"
  let ?H = "[\<lparr>handler_id = 1, priority = 5, arg_types = [''string''], func = returning\<rparr>,
         \<lparr>handler_id = 2, priority = 10, arg_types = [''string''], func = returning\<rparr>,
         \<lparr>handler_id = 3, priority = 1, arg_types = [''string''], func = returning\<rparr>,
         \<lparr>handler_id = 4, priority = 5, arg_types = [''string''], func = returning\<rparr>]
         :: (string, (string, string) Callable) Handler list"
  let ?H' = "[\<lparr>handler_id = 1, priority = 5, arg_types = [''string''], func = returning\<rparr>,
         \<lparr>handler_id = 2, priority = 10, arg_types = [''string''], func = returning\<rparr>,
         \<lparr>handler_id = 3, priority = 7, arg_types = [''string''], func = throwing ''error''\<rparr>,
         \<lparr>handler_id = 4, priority = 5, arg_types = [''string''], func = returning\<rparr>]
         :: (string, (string, string) Callable) Handler list"
  have h: "handler_list ?d EventB = []"
    by (simp add: handler_list_def EventDispatcher_init_def)
  have r: "registered_handlers (fst (register_all EventB ?regs ?d)) ?regs = ?H"
    by (simp add: registered_handlers_def fst_registerHandler next_id_registerHandler
        EventDispatcher_init_def)
  have r': "registered_handlers (fst (register_all EventB ?regs' ?d)) ?regs' = ?H'"
    by (simp add: registered_handlers_def fst_registerHandler next_id_registerHandler
        EventDispatcher_init_def)
  have a: "\<forall>h \<in> set ?H. call_returns ?tup h"
    by (simp add: call_returns_def Handler_call_def returning_def)
  note t = dispatch_priority_order [where d = ?d and c = EventB and tup = ?tup and regs = ?regs,
      THEN conjunct1, THEN mp, OF h, unfolded r]
  note t' = dispatch_priority_order [where d = ?d and c = EventB and tup = ?tup and regs = ?regs',
      THEN conjunct1, THEN mp, OF h, unfolded r']
  from t a have s: "invoked EventB ?tup (snd (register_all EventB ?regs ?d))
      = sort_key (\<lambda>h. - priority h) ?H"
    and e: "snd (fst (dispatch EventB ?tup (snd (register_all EventB ?regs ?d)))) = Returns"
    by blast+
  from t' have s': "invoked EventB ?tup (snd (register_all EventB ?regs' ?d))
      = reached (call_returns ?tup) (sort_key (\<lambda>h. - priority h) ?H')"
    by blast
  have m: "map handler_id (sort_key (\<lambda>h. - priority h) ?H) = [2, 1, 4, 3]"
    by (simp add: sort_key_def)
  have m': "map handler_id (reached (call_returns ?tup) (sort_key (\<lambda>h. - priority h) ?H')) = [2, 3]"
    by (simp add: sort_key_def call_returns_def Handler_call_def returning_def throwing_def)
  show ?thesis by (simp only: h s e s' m m' simp_thms)
qed

text \<open>
  Claim C2. In every state reached from the new dispatcher by a sequence of
  \<^verbatim>\<open>registerHandler\<close>, \<^verbatim>\<open>unregisterHandler\<close> and \<^verbatim>\<open>dispatch\<close> calls, the handler vector of
  every event is sorted by descending priority and lists the handlers of each single priority in
  the order of the registration log; it is the stable sort of the log by descending priority.
  In such a state \<^verbatim>\<open>registerHandler\<close> places the new entry directly before the first entry of a
  strictly lower priority, which is the place after all entries of a priority greater than or
  equal to the new one, and \<^verbatim>\<open>unregisterHandler\<close> keeps the remaining entries in their order.
\<close>

theorem handler_vector_sorted_invariant:
  fixes ops :: "('e, 't, 'v, 'x) Op list"
  shows
  "sorted_wrt (\<lambda>a b. priority a \<ge> priority b) (handler_list (run ops EventDispatcher_init) c)
   \<and> (\<forall>k. filter (\<lambda>h. priority h = k) (handler_list (run ops EventDispatcher_init) c)
          = filter (\<lambda>h. priority h = k) (registration_log c ops EventDispatcher_init []))
   \<and> mset (handler_list (run ops EventDispatcher_init) c)
          = mset (registration_log c ops EventDispatcher_init [])
   \<and> handler_list (run ops EventDispatcher_init) c
          = sort_key (\<lambda>h. - priority h) (registration_log c ops EventDispatcher_init [])
   \<and> handler_list (snd (registerHandler c Args callable prio (run ops EventDispatcher_init))) c
          = takeWhile (\<lambda>h. prio \<le> priority h) (handler_list (run ops EventDispatcher_init) c)
            @ \<lparr>handler_id = next_id (run ops EventDispatcher_init), priority = prio,
                arg_types = Args, func = callable\<rparr>
            # dropWhile (\<lambda>h. prio \<le> priority h) (handler_list (run ops EventDispatcher_init) c)
   \<and> handler_list (snd (registerHandler c Args callable prio (run ops EventDispatcher_init))) c
          = filter (\<lambda>h. prio \<le> priority h) (handler_list (run ops EventDispatcher_init) c)
            @ \<lparr>handler_id = next_id (run ops EventDispatcher_init), priority = prio,
                arg_types = Args, func = callable\<rparr>
            # filter (\<lambda>h. priority h < prio) (handler_list (run ops EventDispatcher_init) c)
   \<and> handler_list (unregisterHandler c ident (run ops EventDispatcher_init)) c
          = filter (\<lambda>h. handler_id h \<noteq> ident) (handler_list (run ops EventDispatcher_init) c)"
proof -
  let ?d = "run ops (EventDispatcher_init :: ('e, 't, ('v, 'x) Callable) EventDispatcher)"
  have "stable_order (handler_list (EventDispatcher_init :: ('e, 't, ('v, 'x) Callable) EventDispatcher) c) []"
    by (simp add: handler_list_def EventDispatcher_init_def stable_order_Nil)
  then have so: "stable_order (handler_list ?d c) (registration_log c ops EventDispatcher_init [])"
    by (rule stable_order_run)
  then have s: "sorted_wrt (\<lambda>a b. priority a \<ge> priority b) (handler_list ?d c)"
    by (simp add: stable_order_def)
  have r: "handler_list (snd (registerHandler c Args callable prio ?d)) c
          = takeWhile (\<lambda>h. prio \<le> priority h) (handler_list ?d c)
            @ \<lparr>handler_id = next_id ?d, priority = prio, arg_types = Args, func = callable\<rparr>
            # dropWhile (\<lambda>h. prio \<le> priority h) (handler_list ?d c)"
    by (simp add: handler_list_registerHandler vec_insert_upper_bound)
  show ?thesis
  proof (intro conjI)
    show "sorted_wrt (\<lambda>a b. priority a \<ge> priority b) (handler_list ?d c)" by (rule s)
    from so show "\<forall>k. filter (\<lambda>h. priority h = k) (handler_list ?d c)
          = filter (\<lambda>h. priority h = k) (registration_log c ops EventDispatcher_init [])"
      by (simp add: stable_order_def)
    from so show "mset (handler_list ?d c) = mset (registration_log c ops EventDispatcher_init [])"
      by (simp add: stable_order_def)
    from so show "handler_list ?d c
          = sort_key (\<lambda>h. - priority h) (registration_log c ops EventDispatcher_init [])"
      by (rule stable_order_sort_key)
    show "handler_list (snd (registerHandler c Args callable prio ?d)) c
          = takeWhile (\<lambda>h. prio \<le> priority h) (handler_list ?d c)
            @ \<lparr>handler_id = next_id ?d, priority = prio, arg_types = Args, func = callable\<rparr>
            # dropWhile (\<lambda>h. prio \<le> priority h) (handler_list ?d c)"
      by (rule r)
    show "handler_list (snd (registerHandler c Args callable prio ?d)) c
          = filter (\<lambda>h. prio \<le> priority h) (handler_list ?d c)
            @ \<lparr>handler_id = next_id ?d, priority = prio, arg_types = Args, func = callable\<rparr>
            # filter (\<lambda>h. priority h < prio) (handler_list ?d c)"
      by (simp only: r takeWhile_sorted_desc [OF s] dropWhile_sorted_desc [OF s])
    show "handler_list (unregisterHandler c ident ?d) c
          = filter (\<lambda>h. handler_id h \<noteq> ident) (handler_list ?d c)"
      by (simp add: handler_list_unregisterHandler)
  qed
qed

text \<open>
  Claim C3 says that a handler whose registered argument types differ from the types of the
  supplied arguments is not invoked and that the dispatch fails with a signature mismatch. The
  program has no such check: a handler registered for an \<^verbatim>\<open>int\<close> argument is called by a
  dispatch that supplies a \<^verbatim>\<open>std::string\<close>, through the unchecked cast of the tuple pointer.
  What the call does is undefined; it is not a signature mismatch that the program raises.
\<close>

theorem dispatch_signature_mismatch_counterexample:
  "dispatch EventA [(''std::string'', ''Hello World'')]
     (snd (registerHandler EventA [''int''] (returning :: (string, string) Callable) 5
            EventDispatcher_init))
   = (([Invocation \<lparr>handler_id = 1, priority = 5, arg_types = [''int''], func = returning\<rparr>
          Reinterpreted], Undefined),
      snd (registerHandler EventA [''int''] returning 5 EventDispatcher_init))"
  by (simp add: dispatch_def registerHandler_def EventDispatcher_init_def vec_insert_def
      Handler_call_def Let_def)

text \<open>
  Claim C3, amended. A handler whose registered argument types differ from the types of the
  supplied arguments is not guarded by any check: when every handler before it in the vector
  has matching types and returns, \<^verbatim>\<open>dispatch\<close> calls it, after the handlers before it, through
  the unchecked reinterpretation of the tuple. The behaviour of this call is undefined; the
  program defines no signature mismatch for it.
\<close>

theorem dispatch_calls_mismatching_handler:
  "handler_list d c = pre @ h # post \<and> (\<forall>g \<in> set pre. call_returns tup g)
     \<and> arg_types h \<noteq> map fst tup \<longrightarrow>
   fst (dispatch c tup d)
     = (map (\<lambda>g. Invocation g (Applied (func g) (map snd tup))) pre @ [Invocation h Reinterpreted],
        Undefined)
   \<and> invoked c tup d = pre @ [h]"
proof (intro impI conjI)
  assume a: "handler_list d c = pre @ h # post \<and> (\<forall>g \<in> set pre. call_returns tup g)
     \<and> arg_types h \<noteq> map fst tup"
  then have r: "Handler_call h tup = Reinterpreted"
    by (simp add: Handler_call_def)
  then have n: "\<not> call_returns tup h"
    by (simp add: call_returns_def)
  from a have p: "map (\<lambda>g. Invocation g (Handler_call g tup)) pre
      = map (\<lambda>g. Invocation g (Applied (func g) (map snd tup))) pre"
    by (simp add: call_returns_Applied)
  from a n show "fst (dispatch c tup d)
     = (map (\<lambda>g. Invocation g (Applied (func g) (map snd tup))) pre @ [Invocation h Reinterpreted],
        Undefined)"
    by (simp add: fst_dispatch call_each_append_stop r p)
  from a n show "invoked c tup d = pre @ [h]"
    by (simp add: invoked_reached reached_append_stop)
qed

theorem dispatch_calls_mismatching_handler_witness:
  "handler_list (snd (register_all EventA
        [([''int''], returning, 10), ([''std::string''], returning, 5), ([''int''], returning, 1)]
        (EventDispatcher_init :: (EventType, string, (int, string) Callable) EventDispatcher))) EventA
     = [\<lparr>handler_id = 1, priority = 10, arg_types = [''int''], func = returning\<rparr>]
       @ \<lparr>handler_id = 2, priority = 5, arg_types = [''std::string''], func = returning\<rparr>
       # [\<lparr>handler_id = 3, priority = 1, arg_types = [''int''], func = returning\<rparr>]
   \<and> call_returns [(''int'', 42 :: int)]
        \<lparr>handler_id = 1, priority = 10, arg_types = [''int''], func = returning :: (int, string) Callable\<rparr>
   \<and> arg_types \<lparr>handler_id = 2, priority = 5, arg_types = [''std::string''],
          func = returning :: (int, string) Callable\<rparr> \<noteq> map fst [(''int'', 42 :: int)]
   \<and> fst (dispatch EventA [(''int'', 42 :: int)] (snd (register_all EventA
        [([''int''], returning, 10), ([''std::string''], returning, 5), ([''int''], returning, 1)]
        (EventDispatcher_init :: (EventType, string, (int, string) Callable) EventDispatcher))))
     = ([Invocation \<lparr>handler_id = 1, priority = 10, arg_types = [''int''], func = returning\<rparr>
           (Applied returning [42]),
         Invocation \<lparr>handler_id = 2, priority = 5, arg_types = [''std::string''], func = returning\<rparr>
           Reinterpreted],
        Undefined)"
proof -
  let ?d = "snd (register_all EventA
        [([''int''], returning, 10), ([''std::string''], returning, 5), ([''int''], returning, 1)]
        (EventDispatcher_init :: (EventType, string, (int, string) Callable) EventDispatcher))"
  let ?h1 = "\<lparr>handler_id = 1, priority = 10, arg_types = [''int''],
          func = returning :: (int, string) Callable\<rparr>"
  let ?h2 = "\<lparr>handler_id = 2, priority = 5, arg_types = [''std::string''],
          func = returning :: (int, string) Callable\<rparr>"
  let ?h3 = "\<lparr>handler_id = 3, priority = 1, arg_types = [''int''],
          func = returning :: (int, string) Callable\<rparr>"
  let ?tup = "[(''int'', 42 :: int)]"
  have a: "handler_list ?d EventA = [?h1] @ ?h2 # [?h3]"
    by (simp add: handler_list_def registerHandler_def EventDispatcher_init_def vec_insert_def
        Let_def)
  have b: "call_returns ?tup ?h1"
    by (simp add: call_returns_def Handler_call_def returning_def)
  then have b': "\<forall>g \<in> set [?h1]. call_returns ?tup g" by simp
  have c: "arg_types ?h2 \<noteq> map fst ?tup" by simp
  from dispatch_calls_mismatching_handler [where d = ?d and c = EventA and pre = "[?h1]"
      and h = ?h2 and post = "[?h3]" and tup = ?tup] a b' c
  have "fst (dispatch EventA ?tup ?d)
     = (map (\<lambda>g. Invocation g (Applied (func g) (map snd ?tup))) [?h1] @ [Invocation ?h2 Reinterpreted],
        Undefined)"
    by blast
  then have e: "fst (dispatch EventA ?tup ?d)
     = ([Invocation ?h1 (Applied returning [42]), Invocation ?h2 Reinterpreted], Undefined)"
    by simp
  show ?thesis by (intro conjI a b c e)
qed

text \<open>
  Claim C4. For every sequence of operations on a new dispatcher, with registrations for any
  events and with any \<^verbatim>\<open>unregisterHandler\<close> and \<^verbatim>\<open>dispatch\<close> calls in between, the ids that
  the registrations return are pairwise distinct and none of them is 0. The sequence stays
  within the id space of the counter: it holds fewer than \<open>2 ^ 64\<close> registrations, so that the
  \<^verbatim>\<open>size_t\<close> counter, which starts at 1, does not wrap around.
\<close>

theorem issued_ids_distinct_nonzero:
  fixes ops :: "('e, 't, 'v, 'x) Op list"
  assumes "count_registers ops < 2 ^ 64"
  shows "distinct (issued ops EventDispatcher_init) \<and> 0 \<notin> set (issued ops EventDispatcher_init)"
proof -
  let ?n = "count_registers ops"
  have eq: "issued ops (EventDispatcher_init :: ('e, 't, ('v, 'x) Callable) EventDispatcher)
      = map (\<lambda>k. 1 + of_nat k) [0..<?n]"
    by (simp add: issued_eq EventDispatcher_init_def)
  have "inj_on (\<lambda>k. 1 + of_nat k :: 64 word) {0..<?n}"
  proof (rule inj_onI)
    fix i j assume "i \<in> {0..<?n}" "j \<in> {0..<?n}" "(1 + of_nat i :: 64 word) = 1 + of_nat j"
    with assms show "i = j" by (auto intro: word64_of_nat_inj)
  qed
  then have "distinct (map (\<lambda>k. 1 + of_nat k :: 64 word) [0..<?n])"
    by (simp add: distinct_map)
  moreover have "(0 :: 64 word) \<notin> set (map (\<lambda>k. 1 + of_nat k) [0..<?n])"
  proof
    assume "(0 :: 64 word) \<in> set (map (\<lambda>k. 1 + of_nat k) [0..<?n])"
    then obtain k where "k < ?n" "(1 + of_nat k :: 64 word) = 0" by auto
    with assms word64_Suc_nonzero [of k] show False by simp
  qed
  ultimately show ?thesis unfolding eq by blast
qed

theorem issued_ids_distinct_nonzero_witness:
  "count_registers [Register EventA [''int''] returning 5, Unregister EventA 1,
       Register EventB [''string''] (throwing ''error'') 0, Dispatch EventB [(''string'', ''x'')],
       Register EventA [''int''] returning 5] < 2 ^ 64
   \<and> distinct (issued [Register EventA [''int''] returning 5, Unregister EventA 1,
       Register EventB [''string''] (throwing ''error'') 0, Dispatch EventB [(''string'', ''x'')],
       Register EventA [''int''] returning 5] EventDispatcher_init)
   \<and> 0 \<notin> set (issued [Register EventA [''int''] returning 5, Unregister EventA 1,
       Register EventB [''string''] (throwing ''error'') 0, Dispatch EventB [(''string'', ''x'')],
       Register EventA [''int''] returning 5] EventDispatcher_init)"
proof -
  have "count_registers [Register EventA [''int''] returning 5, Unregister EventA 1,
       Register EventB [''string''] (throwing ''error'') 0, Dispatch EventB [(''string'', ''x'')],
       Register EventA [''int''] returning 5] < 2 ^ 64"
    by simp
  from issued_ids_distinct_nonzero [OF this] this show ?thesis by blast
qed

text \<open>
  Claim C5. \<^verbatim>\<open>unregisterHandler\<close> removes from the vector of the event the entries with the
  given id and keeps the others in their order, so that no later dispatch invokes the id: a
  later dispatch goes through the remaining entries. The counter and the other events are
  untouched. Where the ids of the vector are distinct and the id is present, exactly one entry
  goes. Where the event has no entry in the map, or no handler of its vector has the id, the
  call returns with the state unchanged. A second call with the same arguments changes nothing.
  In the three-handler example, unregistering id 2 leaves a dispatch that invokes 3 then 1, and
  so does unregistering it twice.
\<close>

theorem unregister_removes_and_is_idempotent:
  "handler_list (unregisterHandler c ident d) c
       = filter (\<lambda>h. handler_id h \<noteq> ident) (handler_list d c)
   \<and> ident \<notin> handler_id ` set (invoked c tup (unregisterHandler c ident d))
   \<and> invoked c tup (unregisterHandler c ident d)
       = reached (call_returns tup) (filter (\<lambda>h. handler_id h \<noteq> ident) (handler_list d c))
   \<and> next_id (unregisterHandler c ident d) = next_id d
   \<and> (c' \<noteq> c \<longrightarrow> handlers (unregisterHandler c ident d) c' = handlers d c')
   \<and> (distinct (map handler_id (handler_list d c)) \<and> ident \<in> handler_id ` set (handler_list d c)
        \<longrightarrow> Suc (length (handler_list (unregisterHandler c ident d) c)) = length (handler_list d c))
   \<and> (handlers d c = None \<or> ident \<notin> handler_id ` set (handler_list d c)
        \<longrightarrow> unregisterHandler c ident d = d)
   \<and> unregisterHandler c ident (unregisterHandler c ident d) = unregisterHandler c ident d
   \<and> map handler_id (invoked EventA [(''int'', 42 :: int)]
        (unregisterHandler EventA 2
          (snd (register_all EventA [([''int''], returning, 5), ([''int''], returning, 10), ([''int''], returning, 7)]
             (EventDispatcher_init :: (EventType, string, (int, string) Callable) EventDispatcher))))) = [3, 1]
   \<and> map handler_id (invoked EventA [(''int'', 42 :: int)]
        (unregisterHandler EventA 2 (unregisterHandler EventA 2
          (snd (register_all EventA [([''int''], returning, 5), ([''int''], returning, 10), ([''int''], returning, 7)]
             (EventDispatcher_init :: (EventType, string, (int, string) Callable) EventDispatcher)))))) = [3, 1]"
proof (intro conjI impI)
  show "handler_list (unregisterHandler c ident d) c
       = filter (\<lambda>h. handler_id h \<noteq> ident) (handler_list d c)"
    by (simp add: handler_list_unregisterHandler)
  show "ident \<notin> handler_id ` set (invoked c tup (unregisterHandler c ident d))"
    using set_reached [of "call_returns tup" "handler_list (unregisterHandler c ident d) c"]
    by (auto simp: invoked_reached handler_list_unregisterHandler)
  show "invoked c tup (unregisterHandler c ident d)
       = reached (call_returns tup) (filter (\<lambda>h. handler_id h \<noteq> ident) (handler_list d c))"
    by (simp add: invoked_reached handler_list_unregisterHandler)
  show "next_id (unregisterHandler c ident d) = next_id d"
    by (rule next_id_unregisterHandler)
  show "handlers (unregisterHandler c ident d) c' = handlers d c'" if "c' \<noteq> c"
    using that by (rule handlers_unregisterHandler_other)
  show "Suc (length (handler_list (unregisterHandler c ident d) c)) = length (handler_list d c)"
    if "distinct (map handler_id (handler_list d c)) \<and> ident \<in> handler_id ` set (handler_list d c)"
    using that by (simp add: handler_list_unregisterHandler length_filter_distinct_id)
  show "unregisterHandler c ident d = d"
    if "handlers d c = None \<or> ident \<notin> handler_id ` set (handler_list d c)"
    using that by (rule unregisterHandler_absent)
  show "unregisterHandler c ident (unregisterHandler c ident d) = unregisterHandler c ident d"
    by (rule unregisterHandler_idem)
  show "map handler_id (invoked EventA [(''int'', 42 :: int)]
        (unregisterHandler EventA 2
          (snd (register_all EventA [([''int''], returning, 5), ([''int''], returning, 10), ([''int''], returning, 7)]
             (EventDispatcher_init :: (EventType, string, (int, string) Callable) EventDispatcher))))) = [3, 1]"
    by (simp add: invoked_reached call_returns_def Handler_call_def returning_def handler_list_def
        unregisterHandler_def registerHandler_def EventDispatcher_init_def vec_insert_def Let_def)
  show "map handler_id (invoked EventA [(''int'', 42 :: int)]
        (unregisterHandler EventA 2 (unregisterHandler EventA 2
          (snd (register_all EventA [([''int''], returning, 5), ([''int''], returning, 10), ([''int''], returning, 7)]
             (EventDispatcher_init :: (EventType, string, (int, string) Callable) EventDispatcher)))))) = [3, 1]"
    by (simp add: invoked_reached call_returns_def Handler_call_def returning_def handler_list_def
        unregisterHandler_def registerHandler_def EventDispatcher_init_def vec_insert_def Let_def)
qed

theorem unregister_removes_and_is_idempotent_witness:
  "(distinct (map handler_id (handler_list benchmark_dispatcher EventA))
      \<and> 2 \<in> handler_id ` set (handler_list benchmark_dispatcher EventA))
   \<and> Suc (length (handler_list (unregisterHandler EventA 2 benchmark_dispatcher) EventA))
       = length (handler_list benchmark_dispatcher EventA)
   \<and> EventB \<noteq> EventA
   \<and> handlers (unregisterHandler EventA 2 benchmark_dispatcher) EventB
       = handlers benchmark_dispatcher EventB
   \<and> handlers benchmark_dispatcher EventB = None
   \<and> unregisterHandler EventB 2 benchmark_dispatcher = benchmark_dispatcher
   \<and> 7 \<notin> handler_id ` set (handler_list benchmark_dispatcher EventA)
   \<and> unregisterHandler EventA 7 benchmark_dispatcher = benchmark_dispatcher"
proof -
  have a: "distinct (map handler_id (handler_list benchmark_dispatcher EventA))
      \<and> 2 \<in> handler_id ` set (handler_list benchmark_dispatcher EventA)"
    by (simp add: benchmark_dispatcher_eq handler_list_def)
  have b: "EventB \<noteq> EventA" by simp
  have c: "handlers benchmark_dispatcher EventB = None"
    by (simp add: benchmark_dispatcher_eq)
  have d: "7 \<notin> handler_id ` set (handler_list benchmark_dispatcher EventA)"
    by (simp add: benchmark_dispatcher_eq handler_list_def)
  show ?thesis
    using a b c d
      unregister_removes_and_is_idempotent [where d = benchmark_dispatcher and c = EventA
        and ident = 2 and c' = EventB and tup = "[] :: (string \<times> int) list"]
      unregister_removes_and_is_idempotent [where d = benchmark_dispatcher and c = EventB
        and ident = 2 and c' = EventA and tup = "[] :: (string \<times> int) list"]
      unregister_removes_and_is_idempotent [where d = benchmark_dispatcher and c = EventA
        and ident = 7 and c' = EventB and tup = "[] :: (string \<times> int) list"]
    by blast
qed

text \<open>
  Claim C6. A \<^verbatim>\<open>dispatch\<close> for an event without handlers, be it that the map has no entry for
  the event or an empty vector, invokes nothing and returns, with the dispatcher state
  unchanged; so does every dispatch on a new dispatcher.
\<close>

theorem dispatch_without_handlers:
  "(handlers d c = None \<or> handlers d c = Some [] \<longrightarrow> dispatch c tup d = (([], Returns), d))
   \<and> dispatch c tup EventDispatcher_init = (([], Returns), EventDispatcher_init)"
  by (auto simp: dispatch_def EventDispatcher_init_def)

theorem dispatch_without_handlers_witness:
  "handlers benchmark_dispatcher EventB = None
   \<and> dispatch EventB [(''int'', 1 :: int)] benchmark_dispatcher = (([], Returns), benchmark_dispatcher)
   \<and> handlers (unregisterHandler EventA 1 (snd (registerHandler EventA [''int''] returning 0
         (EventDispatcher_init :: (EventType, string, (int, string) Callable) EventDispatcher)))) EventA
       = Some []
   \<and> dispatch EventA [(''int'', 1 :: int)]
        (unregisterHandler EventA 1 (snd (registerHandler EventA [''int''] returning 0
         (EventDispatcher_init :: (EventType, string, (int, string) Callable) EventDispatcher))))
      = (([], Returns), unregisterHandler EventA 1 (snd (registerHandler EventA [''int''] returning 0
         EventDispatcher_init)))"
proof -
  let ?d = "unregisterHandler EventA 1 (snd (registerHandler EventA [''int''] returning 0
         (EventDispatcher_init :: (EventType, string, (int, string) Callable) EventDispatcher)))"
  have a: "handlers benchmark_dispatcher EventB = None"
    by (simp add: benchmark_dispatcher_eq)
  have b: "handlers ?d EventA = Some []"
    by (simp add: unregisterHandler_def registerHandler_def EventDispatcher_init_def
        vec_insert_def Let_def)
  show ?thesis
    using a b
      dispatch_without_handlers [where d = benchmark_dispatcher and c = EventB
        and tup = "[(''int'', 1 :: int)]"]
      dispatch_without_handlers [where d = ?d and c = EventA and tup = "[(''int'', 1 :: int)]"]
    by blast
qed

text \<open>
  Claim C7. \<^verbatim>\<open>dispatch\<close> leaves the dispatcher state as it was given, however it ends: the
  handler map and the id counter are unchanged, and a \<^verbatim>\<open>dispatch\<close> call can be left out of any
  sequence of operations without changing the state that the sequence reaches. A body is a
  function of its arguments in this model and has no access to the dispatcher.
\<close>

theorem dispatch_leaves_state_unchanged:
  "snd (dispatch c tup d) = d
   \<and> handlers (snd (dispatch c tup d)) = handlers d
   \<and> next_id (snd (dispatch c tup d)) = next_id d
   \<and> run (ops1 @ Dispatch c tup # ops2) d = run (ops1 @ ops2) d"
  by (simp add: snd_dispatch run_append)

text \<open>
  Claim C9. For two distinct events \<open>c\<close> and \<open>c'\<close>, a \<^verbatim>\<open>registerHandler\<close> or
  \<^verbatim>\<open>unregisterHandler\<close> call for \<open>c\<close> leaves the map entry of \<open>c'\<close> as it was, and a dispatch
  for \<open>c'\<close> makes the same calls and ends the same way before and after. In particular
  \<^verbatim>\<open>unregisterHandler\<close> for \<open>c\<close> with the id of a handler stored for \<open>c'\<close>, such as the id that
  a registration for \<open>c'\<close> has just returned, leaves the vector of \<open>c'\<close> unchanged: the handler
  stays in it, a later dispatch for \<open>c'\<close> invokes what it invoked before, and it invokes that
  handler whenever the calls of the vector return. In a state reached from the new dispatcher
  with at most \<open>2 ^ 64\<close> registrations the stored ids are unique, and that call changes nothing
  at all.
\<close>

theorem other_category_untouched:
  fixes ops :: "('e, 't, 'v, 'x) Op list" and d :: "('e, 't, ('v, 'x) Callable) EventDispatcher"
    and tup :: "('t \<times> 'v) list"
  shows
  "c \<noteq> c' \<longrightarrow>
      handlers (snd (registerHandler c Args callable prio d)) c' = handlers d c'
    \<and> handlers (unregisterHandler c ident d) c' = handlers d c'
    \<and> fst (dispatch c' tup (snd (registerHandler c Args callable prio d))) = fst (dispatch c' tup d)
    \<and> fst (dispatch c' tup (unregisterHandler c ident d)) = fst (dispatch c' tup d)
    \<and> (\<forall>h \<in> set (handler_list d c').
          handler_list (unregisterHandler c (handler_id h) d) c' = handler_list d c'
          \<and> invoked c' tup (unregisterHandler c (handler_id h) d) = invoked c' tup d
          \<and> h \<in> set (handler_list (unregisterHandler c (handler_id h) d) c')
          \<and> ((\<forall>g \<in> set (handler_list d c'). call_returns tup g) \<longrightarrow>
                h \<in> set (invoked c' tup (unregisterHandler c (handler_id h) d))))
    \<and> fst (registerHandler c' Args callable prio d)
          \<in> handler_id ` set (handler_list
               (unregisterHandler c (fst (registerHandler c' Args callable prio d))
                  (snd (registerHandler c' Args callable prio d))) c')
    \<and> ((\<forall>g \<in> set (handler_list (snd (registerHandler c' Args callable prio d)) c').
            call_returns tup g) \<longrightarrow>
          fst (registerHandler c' Args callable prio d)
            \<in> handler_id ` set (invoked c' tup
                 (unregisterHandler c (fst (registerHandler c' Args callable prio d))
                    (snd (registerHandler c' Args callable prio d)))))
    \<and> (count_registers ops \<le> 2 ^ 64 \<longrightarrow>
         (\<forall>h \<in> set (handler_list (run ops EventDispatcher_init) c').
            unregisterHandler c (handler_id h) (run ops EventDispatcher_init)
              = run ops EventDispatcher_init))"
proof (intro impI conjI ballI)
  assume ne: "c \<noteq> c'"
  then have ne': "c' \<noteq> c" by simp
  show r: "handlers (snd (registerHandler c Args callable prio d)) c' = handlers d c'"
    using ne' by (rule handlers_registerHandler_other)
  show u: "handlers (unregisterHandler c ident d) c' = handlers d c'"
    using ne' by (rule handlers_unregisterHandler_other)
  show "fst (dispatch c' tup (snd (registerHandler c Args callable prio d))) = fst (dispatch c' tup d)"
    by (simp add: dispatch_def r split: option.split)
  show "fst (dispatch c' tup (unregisterHandler c ident d)) = fst (dispatch c' tup d)"
    by (simp add: dispatch_def u split: option.split)
  show hl: "handler_list (unregisterHandler c (handler_id h) d) c' = handler_list d c'" for h
    using ne' by (simp add: handler_list_unregisterHandler)
  show "invoked c' tup (unregisterHandler c (handler_id h) d) = invoked c' tup d" for h
    by (simp add: invoked_reached hl)
  show "h \<in> set (handler_list (unregisterHandler c (handler_id h) d) c')"
    if "h \<in> set (handler_list d c')" for h
    using that by (simp add: hl)
  show "h \<in> set (invoked c' tup (unregisterHandler c (handler_id h) d))"
    if "h \<in> set (handler_list d c')" "\<forall>g \<in> set (handler_list d c'). call_returns tup g" for h
    using that by (simp add: invoked_reached hl reached_all)
  let ?d1 = "snd (registerHandler c' Args callable prio d)"
  let ?i = "fst (registerHandler c' Args callable prio d)"
  have hl1: "handler_list (unregisterHandler c ?i ?d1) c' = handler_list ?d1 c'"
    using ne' by (simp add: handler_list_unregisterHandler)
  have i1: "?i \<in> handler_id ` set (handler_list ?d1 c')"
    by (simp add: ids_handler_list_registerHandler fst_registerHandler)
  show "?i \<in> handler_id ` set (handler_list (unregisterHandler c ?i ?d1) c')"
    by (simp only: hl1 i1)
  show "?i \<in> handler_id ` set (invoked c' tup (unregisterHandler c ?i ?d1))"
    if "\<forall>g \<in> set (handler_list ?d1 c'). call_returns tup g"
    using that i1 by (simp only: invoked_reached hl1 reached_all)
  show "unregisterHandler c (handler_id h) (run ops EventDispatcher_init) = run ops EventDispatcher_init"
    if "count_registers ops \<le> 2 ^ 64" "h \<in> set (handler_list (run ops EventDispatcher_init) c')" for h
    using reachable_ids_unique(2) [OF that(1) ne that(2)]
    by (intro unregisterHandler_absent disjI2)
qed

theorem other_category_untouched_witness:
  "EventB \<noteq> EventA
   \<and> count_registers [Register EventA [''int''] returning 5, Register EventA [''int''] returning 10,
          Register EventA [''int''] returning 7 :: (EventType, string, int, string) Op] \<le> 2 ^ 64
   \<and> run [Register EventA [''int''] returning 5, Register EventA [''int''] returning 10,
          Register EventA [''int''] returning 7 :: (EventType, string, int, string) Op]
        EventDispatcher_init = benchmark_dispatcher
   \<and> \<lparr>handler_id = 2, priority = 10, arg_types = [''int''], func = returning\<rparr>
        \<in> set (handler_list benchmark_dispatcher EventA)
   \<and> call_returns [(''int'', 42 :: int)]
        \<lparr>handler_id = 2, priority = 10, arg_types = [''int''], func = returning :: (int, string) Callable\<rparr>
   \<and> call_returns [(''int'', 42 :: int)]
        \<lparr>handler_id = 3, priority = 7, arg_types = [''int''], func = returning :: (int, string) Callable\<rparr>
   \<and> call_returns [(''int'', 42 :: int)]
        \<lparr>handler_id = 1, priority = 5, arg_types = [''int''], func = returning :: (int, string) Callable\<rparr>
   \<and> unregisterHandler EventB 2 benchmark_dispatcher = benchmark_dispatcher
   \<and> handlers (unregisterHandler EventB 2 benchmark_dispatcher) EventA
       = handlers benchmark_dispatcher EventA
   \<and> \<lparr>handler_id = 2, priority = 10, arg_types = [''int''], func = returning\<rparr>
        \<in> set (invoked EventA [(''int'', 42 :: int)] (unregisterHandler EventB 2 benchmark_dispatcher))
   \<and> 4 \<in> handler_id ` set (invoked EventA [(''int'', 42 :: int)]
              (unregisterHandler EventB 4
                 (snd (registerHandler EventA [''int''] returning 0 benchmark_dispatcher))))"
proof -
  let ?ops = "[Register EventA [''int''] returning 5, Register EventA [''int''] returning 10,
          Register EventA [''int''] returning 7 :: (EventType, string, int, string) Op]"
  let ?h = "\<lparr>handler_id = 2, priority = 10, arg_types = [''int''],
      func = returning :: (int, string) Callable\<rparr>"
  let ?h3 = "\<lparr>handler_id = 3, priority = 7, arg_types = [''int''],
      func = returning :: (int, string) Callable\<rparr>"
  let ?h1 = "\<lparr>handler_id = 1, priority = 5, arg_types = [''int''],
      func = returning :: (int, string) Callable\<rparr>"
  let ?tup = "[(''int'', 42 :: int)]"
  have r: "run ?ops EventDispatcher_init = benchmark_dispatcher"
    by (simp add: benchmark_dispatcher_def)
  have a: "EventB \<noteq> EventA" by simp
  have b: "count_registers ?ops \<le> 2 ^ 64" by simp
  have l: "handler_list benchmark_dispatcher EventA = [?h, ?h3, ?h1]"
    by (simp add: benchmark_dispatcher_eq handler_list_def)
  have c: "?h \<in> set (handler_list benchmark_dispatcher EventA)"
    by (simp add: l)
  have k: "call_returns ?tup ?h" "call_returns ?tup ?h3" "call_returns ?tup ?h1"
    by (simp_all add: call_returns_def Handler_call_def returning_def)
  then have all: "\<forall>g \<in> set (handler_list benchmark_dispatcher EventA). call_returns ?tup g"
    by (simp add: l)
  have n: "fst (registerHandler EventA [''int''] returning 0 benchmark_dispatcher) = 4"
    by (simp add: fst_registerHandler benchmark_dispatcher_eq)
  have all4: "\<forall>g \<in> set (handler_list (snd (registerHandler EventA [''int''] returning 0
      benchmark_dispatcher)) EventA). call_returns ?tup g"
    using k by (simp add: handler_list_registerHandler set_vec_insert l call_returns_def
        Handler_call_def returning_def)
  note t = other_category_untouched [where c = EventB and c' = EventA and ops = ?ops
      and d = benchmark_dispatcher and ident = 2 and tup = ?tup and Args = "[''int'']"
      and callable = returning and prio = 0, THEN mp, OF a]
  from t b c have u: "unregisterHandler EventB (handler_id ?h) (run ?ops EventDispatcher_init)
      = run ?ops EventDispatcher_init"
    unfolding r by blast
  from t c all have i: "?h \<in> set (invoked EventA ?tup
      (unregisterHandler EventB (handler_id ?h) benchmark_dispatcher))"
    by blast
  from t have f: "handlers (unregisterHandler EventB 2 benchmark_dispatcher) EventA
       = handlers benchmark_dispatcher EventA"
    by blast
  from t all4 have j: "fst (registerHandler EventA [''int''] returning 0 benchmark_dispatcher)
      \<in> handler_id ` set (invoked EventA ?tup
           (unregisterHandler EventB (fst (registerHandler EventA [''int''] returning 0 benchmark_dispatcher))
              (snd (registerHandler EventA [''int''] returning 0 benchmark_dispatcher))))"
    by blast
  have g: "handler_id ?h = 2" by simp
  from u have u': "unregisterHandler EventB 2 benchmark_dispatcher = benchmark_dispatcher"
    unfolding r g .
  from i have i': "?h \<in> set (invoked EventA ?tup (unregisterHandler EventB 2 benchmark_dispatcher))"
    unfolding g .
  from j have j': "4 \<in> handler_id ` set (invoked EventA ?tup
              (unregisterHandler EventB 4
                 (snd (registerHandler EventA [''int''] returning 0 benchmark_dispatcher))))"
    unfolding n .
  show ?thesis by (intro conjI a b r c k u' f i' j')
qed

text \<open>
  Claim C10. When \<^verbatim>\<open>unregisterHandler\<close> removes the last handlers of an event, the map keeps
  an entry with an empty vector for the event; a dispatch for the event invokes nothing and
  returns, with the state unchanged. It does what a dispatch for the event does on the new
  dispatcher, and on any dispatcher whose map has no entry for the event.
\<close>

theorem unregister_last_handler:
  "(handlers d c = Some vec \<and> vec \<noteq> [] \<and> (\<forall>h \<in> set vec. handler_id h = ident) \<longrightarrow>
      handlers (unregisterHandler c ident d) c = Some []
    \<and> dispatch c tup (unregisterHandler c ident d) = (([], Returns), unregisterHandler c ident d)
    \<and> fst (dispatch c tup (unregisterHandler c ident d)) = fst (dispatch c tup EventDispatcher_init)
    \<and> (handlers d0 c = None \<longrightarrow>
          fst (dispatch c tup (unregisterHandler c ident d)) = fst (dispatch c tup d0)))
   \<and> handlers (EventDispatcher_init :: ('e, 't, ('v, 'x) Callable) EventDispatcher) c = None"
proof (intro conjI impI)
  assume a: "handlers d c = Some vec \<and> vec \<noteq> [] \<and> (\<forall>h \<in> set vec. handler_id h = ident)"
  then have "filter (\<lambda>h. handler_id h \<noteq> ident) vec = []"
    by (simp add: filter_empty_conv)
  with a show e: "handlers (unregisterHandler c ident d) c = Some []"
    by (simp add: unregisterHandler_def erase_remove_if_filter)
  then show "dispatch c tup (unregisterHandler c ident d) = (([], Returns), unregisterHandler c ident d)"
    by (simp add: dispatch_def)
  from e show "fst (dispatch c tup (unregisterHandler c ident d)) = fst (dispatch c tup EventDispatcher_init)"
    by (simp add: dispatch_def EventDispatcher_init_def)
  from e show "fst (dispatch c tup (unregisterHandler c ident d)) = fst (dispatch c tup d0)"
    if "handlers d0 c = None"
    using that by (simp add: dispatch_def)
next
  show "handlers (EventDispatcher_init :: ('e, 't, ('v, 'x) Callable) EventDispatcher) c = None"
    by (simp add: EventDispatcher_init_def)
qed

theorem unregister_last_handler_witness:
  "handlers (snd (registerHandler EventA [''int''] returning 0
        (EventDispatcher_init :: (EventType, string, (int, string) Callable) EventDispatcher))) EventA
      = Some [\<lparr>handler_id = 1, priority = 0, arg_types = [''int''], func = returning\<rparr>]
   \<and> handler_id \<lparr>handler_id = 1, priority = 0, arg_types = [''int''],
         func = returning :: (int, string) Callable\<rparr> = 1
   \<and> handlers (EventDispatcher_init :: (EventType, string, (int, string) Callable) EventDispatcher)
         EventA = None
   \<and> handlers (unregisterHandler EventA 1 (snd (registerHandler EventA [''int''] returning 0
        (EventDispatcher_init :: (EventType, string, (int, string) Callable) EventDispatcher)))) EventA
      = Some []
   \<and> fst (dispatch EventA [(''int'', 3 :: int)]
        (unregisterHandler EventA 1 (snd (registerHandler EventA [''int''] returning 0
          (EventDispatcher_init :: (EventType, string, (int, string) Callable) EventDispatcher)))))
      = ([], Returns)
   \<and> fst (dispatch EventA [(''int'', 3 :: int)]
        (unregisterHandler EventA 1 (snd (registerHandler EventA [''int''] returning 0
          (EventDispatcher_init :: (EventType, string, (int, string) Callable) EventDispatcher)))))
      = fst (dispatch EventA [(''int'', 3 :: int)]
          (EventDispatcher_init :: (EventType, string, (int, string) Callable) EventDispatcher))"
proof -
  let ?i = "EventDispatcher_init :: (EventType, string, (int, string) Callable) EventDispatcher"
  let ?d = "snd (registerHandler EventA [''int''] returning 0 ?i)"
  let ?h = "\<lparr>handler_id = 1, priority = 0, arg_types = [''int''],
        func = returning :: (int, string) Callable\<rparr>"
  have a: "handlers ?d EventA = Some [?h] \<and> [?h] \<noteq> [] \<and> (\<forall>h \<in> set [?h]. handler_id h = 1)"
    by (simp add: registerHandler_def EventDispatcher_init_def vec_insert_def Let_def)
  have b: "handlers ?i EventA = None"
    by (simp add: EventDispatcher_init_def)
  from unregister_last_handler [where d = ?d and c = EventA and vec = "[?h]" and ident = 1
      and tup = "[(''int'', 3 :: int)]" and ?d0.0 = ?i] a b
  have "handlers (unregisterHandler EventA 1 ?d) EventA = Some []
    \<and> dispatch EventA [(''int'', 3 :: int)] (unregisterHandler EventA 1 ?d)
        = (([], Returns), unregisterHandler EventA 1 ?d)
    \<and> fst (dispatch EventA [(''int'', 3 :: int)] (unregisterHandler EventA 1 ?d))
        = fst (dispatch EventA [(''int'', 3 :: int)] ?i)"
    by blast
  then have r: "handlers (unregisterHandler EventA 1 ?d) EventA = Some []"
    and e: "fst (dispatch EventA [(''int'', 3 :: int)] (unregisterHandler EventA 1 ?d)) = ([], Returns)"
    and f: "fst (dispatch EventA [(''int'', 3 :: int)] (unregisterHandler EventA 1 ?d))
        = fst (dispatch EventA [(''int'', 3 :: int)] ?i)"
    by (blast, metis fst_conv, blast)
  have g: "handler_id ?h = 1" by simp
  from a have a': "handlers ?d EventA = Some [?h]" by simp
  show ?thesis by (intro conjI a' g b r e f)
qed

end
